theory Spec2Isabelle
  imports Main "HOL-Library.Sublist" "HOL-Library.AList"
begin

section \<open>Paths\<close>

text \<open>
  The organizer manipulates \<^verbatim>\<open>pathlib.Path\<close> values. A path is modelled as
  pathlib's POSIX flavour parses it: a root (\<open>''''\<close> for a relative path,
  \<open>''/''\<close> or \<open>''//''\<close>) and the list of its components. Strings are byte
  strings; \<open>lower\<close> folds the ASCII letters only.
\<close>

datatype path = PurePath (proot: string) (parts: "string list")

text \<open>\<^verbatim>\<open>str.split('/')\<close>.\<close>

fun split_sep :: "string \<Rightarrow> string list" where
  "split_sep [] = [[]]"
| "split_sep (c # cs) =
     (if c = CHR ''/'' then [] # split_sep cs
      else (case split_sep cs of [] \<Rightarrow> [[c]] | w # ws \<Rightarrow> (c # w) # ws))"

text \<open>\<^verbatim>\<open>'/'.join(parts)\<close>.\<close>

fun join_sep :: "string list \<Rightarrow> string" where
  "join_sep [] = []"
| "join_sep [x] = x"
| "join_sep (x # y # ys) = x @ ''/'' @ join_sep (y # ys)"

text \<open>
  \<^verbatim>\<open>posixpath.splitroot\<close>: no leading slash, exactly two leading slashes (kept as
  the root \<open>''//''\<close>), or one (three and more collapse to one).
\<close>

definition splitroot :: "string \<Rightarrow> string \<times> string" where
  "splitroot p =
     (if take 1 p \<noteq> ''/'' then ('''', p)
      else if take 1 (drop 1 p) \<noteq> ''/'' \<or> take 1 (drop 2 p) = ''/'' then (''/'', drop 1 p)
      else (take 2 p, drop 2 p))"

text \<open>\<^verbatim>\<open>Path(s)\<close>: empty components and \<open>''.''\<close> are dropped, \<open>''..''\<close> is kept.\<close>

definition Path :: "string \<Rightarrow> path" where
  "Path s =
     (case splitroot s of
        (r, rel) \<Rightarrow> PurePath r (filter (\<lambda>x. x \<noteq> [] \<and> x \<noteq> ''.'') (split_sep rel)))"

text \<open>\<^verbatim>\<open>str(p)\<close>: the path without root and components prints as \<open>''.''\<close>.\<close>

definition str_path :: "path \<Rightarrow> string" where
  "str_path p = (let s = proot p @ join_sep (parts p) in if s = [] then ''.'' else s)"

text \<open>\<^verbatim>\<open>p / q\<close>: an absolute right operand replaces the left one.\<close>

definition path_join :: "path \<Rightarrow> path \<Rightarrow> path" where
  "path_join p q = (if proot q \<noteq> [] then q else PurePath (proot p) (parts p @ parts q))"

definition join_str :: "path \<Rightarrow> string \<Rightarrow> path" where
  "join_str p s = path_join p (Path s)"

definition path_parent :: "path \<Rightarrow> path" where
  "path_parent p = PurePath (proot p) (butlast (parts p))"

definition path_name :: "path \<Rightarrow> string" where
  "path_name p = (if parts p = [] then [] else last (parts p))"

text \<open>\<^verbatim>\<open>name.rfind(c)\<close>, with \<open>None\<close> for Python's \<open>-1\<close>.\<close>

fun rfind :: "char \<Rightarrow> string \<Rightarrow> nat option" where
  "rfind c [] = None"
| "rfind c (x # xs) =
     (case rfind c xs of
        Some i \<Rightarrow> Some (Suc i)
      | None \<Rightarrow> if x = c then Some 0 else None)"

text \<open>
  \<^verbatim>\<open>PurePath.suffix\<close> and \<^verbatim>\<open>PurePath.stem\<close>: the name is cut at its last dot
  when that dot is neither its first nor its last character.
\<close>

definition path_suffix :: "path \<Rightarrow> string" where
  "path_suffix p =
     (let n = path_name p in
      case rfind CHR ''.'' n of
        None \<Rightarrow> []
      | Some i \<Rightarrow> if 0 < i \<and> i + 1 < length n then drop i n else [])"

definition path_stem :: "path \<Rightarrow> string" where
  "path_stem p =
     (let n = path_name p in
      case rfind CHR ''.'' n of
        None \<Rightarrow> n
      | Some i \<Rightarrow> if 0 < i \<and> i + 1 < length n then take i n else n)"

definition is_absolute :: "path \<Rightarrow> bool" where
  "is_absolute p = (proot p \<noteq> [])"

text \<open>
  A \<^verbatim>\<open>Path\<close> used as a condition: pathlib defines neither \<^verbatim>\<open>__bool__\<close> nor
  \<^verbatim>\<open>__len__\<close>, so every path is true.
\<close>

definition path_truthy :: "path \<Rightarrow> bool" where
  "path_truthy p = True"

definition lower_char :: "char \<Rightarrow> char" where
  "lower_char c =
     (let n = (of_char c :: nat) in if 65 \<le> n \<and> n \<le> 90 then char_of (n + 32) else c)"

definition lower :: "string \<Rightarrow> string" where
  "lower s = map lower_char s"

section \<open>Configuration, plans and the program state\<close>

record catinfo =
  extensions :: "string list"
  destination :: string

text \<open>
  The rule set in its expected shape. \<open>categories\<close> is the JSON object in insertion
  order; a missing \<^verbatim>\<open>others_destination\<close> or \<^verbatim>\<open>default_destination\<close> key
  reads as the empty string.
\<close>

record config =
  categories :: "(string \<times> catinfo) list"
  others_destination :: string
  default_destination :: string

record plan_entry =
  pe_src :: string
  category :: string
  planned_dest :: string

record move_record =
  mv_src :: string
  mv_dest :: string

record run_log =
  timestamp :: string
  moves :: "move_record list"

datatype node = File string | Dir

datatype exn =
    FileNotFoundError string
  | FileExistsError string
  | NotADirectoryError string
  | ShutilError string
  | OSError string
  | JSONDecodeError
  | TypeError

text \<open>JSON values, as \<^verbatim>\<open>json.load\<close> returns them.\<close>

datatype json =
    JNull
  | JBool bool
  | JNum int
  | JStr string
  | JArr "json list"
  | JObj "(string \<times> json) list"

text \<open>
  The configuration file: absent, present with a text that is not JSON, or present with
  a JSON value.
\<close>

datatype cfg_file = NoFile | NotJson | Json json

text \<open>
  The state the organizer works on: the directory tree (absolute component lists to
  nodes, in enumeration order), the working directory that relative paths are resolved
  against, the home directory, and the data directory with its three files: the
  configuration, the last run and the log (kept apart from the tree). \<open>now\<close> is what
  \<^verbatim>\<open>datetime.now(timezone.utc).isoformat()\<close> returns.
  Symbolic links, permissions and \<open>''..''\<close> resolution are not modelled: an operation
  fails only for the structural reasons written out below.
\<close>

record state =
  fs :: "(string list \<times> node) list"
  cwd :: "string list"
  home :: path
  data_dir :: path
  config_file :: cfg_file
  last_run :: "run_log option"
  log :: "string list"
  now :: string

section \<open>Filesystem primitives\<close>

definition lookup :: "(string list \<times> node) list \<Rightarrow> string list \<Rightarrow> node option" where
  "lookup t k = (if k = [] then Some Dir else map_of t k)"

definition key :: "state \<Rightarrow> path \<Rightarrow> string list" where
  "key st p = (if proot p = [] then cwd st @ parts p else parts p)"

definition exists_p :: "state \<Rightarrow> path \<Rightarrow> bool" where
  "exists_p st p = (lookup (fs st) (key st p) \<noteq> None)"

definition is_file :: "state \<Rightarrow> path \<Rightarrow> bool" where
  "is_file st p = (case lookup (fs st) (key st p) of Some (File c) \<Rightarrow> True | _ \<Rightarrow> False)"

definition is_dir :: "state \<Rightarrow> path \<Rightarrow> bool" where
  "is_dir st p = (lookup (fs st) (key st p) = Some Dir)"

text \<open>The names of the entries of directory \<open>k\<close>, in enumeration order.\<close>

definition children :: "(string list \<times> node) list \<Rightarrow> string list \<Rightarrow> string list" where
  "children t k = map (\<lambda>e. last (fst e)) (filter (\<lambda>e. fst e \<noteq> [] \<and> butlast (fst e) = k) t)"

text \<open>\<^verbatim>\<open>Path.iterdir\<close>: each entry is the directory's path with the name appended.\<close>

definition make_child_relpath :: "path \<Rightarrow> string \<Rightarrow> path" where
  "make_child_relpath p n = PurePath (proot p) (parts p @ [n])"

definition iterdir :: "state \<Rightarrow> path \<Rightarrow> exn + path list" where
  "iterdir st p =
     (case lookup (fs st) (key st p) of
        None \<Rightarrow> Inl (FileNotFoundError (str_path p))
      | Some (File c) \<Rightarrow> Inl (NotADirectoryError (str_path p))
      | Some Dir \<Rightarrow> Inr (map (make_child_relpath p) (children (fs st) (key st p))))"

definition logger :: "string \<Rightarrow> string \<Rightarrow> state \<Rightarrow> state" where
  "logger level msg st = st\<lparr>log := log st @ [level @ '' - '' @ msg]\<rparr>"

section \<open>Plan builder\<close>

subsection \<open>Variant v1\<close>

fun categorize_loop_v1 :: "string \<Rightarrow> (string \<times> catinfo) list \<Rightarrow> (string \<times> path) option" where
  "categorize_loop_v1 ext [] = None"
| "categorize_loop_v1 ext ((cat, catinfo) # rest) =
     (let exts = map lower (extensions catinfo) in
      if ext \<in> set exts then Some (cat, Path (destination catinfo))
      else categorize_loop_v1 ext rest)"

definition categorize_file_v1 :: "path \<Rightarrow> config \<Rightarrow> string \<times> path" where
  "categorize_file_v1 file cfg =
     (let ext = lower (path_suffix file) in
      case categorize_loop_v1 ext (categories cfg) of
        Some r \<Rightarrow> r
      | None \<Rightarrow> (''Others'', Path (others_destination cfg)))"

fun preview_items_v1 :: "state \<Rightarrow> config \<Rightarrow> path \<Rightarrow> path list \<Rightarrow> plan_entry list" where
  "preview_items_v1 st cfg source [] = []"
| "preview_items_v1 st cfg source (item # items) =
     (if is_file st item then
        (case categorize_file_v1 item cfg of
           (cat, dest_root) \<Rightarrow>
             (let target_folder =
                    (if path_truthy dest_root \<and> is_absolute dest_root
                     then join_str dest_root cat else join_str source cat);
                  planned = join_str target_folder (path_name item)
              in \<lparr>pe_src = str_path item, category = cat, planned_dest = str_path planned\<rparr>
                 # preview_items_v1 st cfg source items))
      else preview_items_v1 st cfg source items)"

fun build_preview_loop_v1 ::
  "state \<Rightarrow> path list \<Rightarrow> config \<Rightarrow> plan_entry list \<Rightarrow> state \<times> (exn + plan_entry list)" where
  "build_preview_loop_v1 st [] cfg plan = (st, Inr plan)"
| "build_preview_loop_v1 st (source # rest) cfg plan =
     (if \<not> exists_p st source then
        build_preview_loop_v1
          (logger ''WARNING'' (''Source not found: '' @ str_path source) st) rest cfg plan
      else
        (case iterdir st source of
           Inl e \<Rightarrow> (st, Inl e)
         | Inr items \<Rightarrow>
             build_preview_loop_v1 st rest cfg (plan @ preview_items_v1 st cfg source items)))"

definition build_preview_v1 ::
  "state \<Rightarrow> path list \<Rightarrow> config \<Rightarrow> state \<times> (exn + plan_entry list)" where
  "build_preview_v1 st sources cfg = build_preview_loop_v1 st sources cfg []"

subsection \<open>Variant v2\<close>

fun categorize_loop_v2 :: "string \<Rightarrow> (string \<times> catinfo) list \<Rightarrow> (string \<times> path) option" where
  "categorize_loop_v2 ext [] = None"
| "categorize_loop_v2 ext ((cat, info) # rest) =
     (if ext \<in> set (map lower (extensions info)) then Some (cat, Path (destination info))
      else categorize_loop_v2 ext rest)"

definition categorize_file_v2 :: "path \<Rightarrow> config \<Rightarrow> string \<times> path" where
  "categorize_file_v2 file cfg =
     (let ext = lower (path_suffix file) in
      case categorize_loop_v2 ext (categories cfg) of
        Some r \<Rightarrow> r
      | None \<Rightarrow> (''Others'', Path (others_destination cfg)))"

definition fallback_root :: "state \<Rightarrow> config \<Rightarrow> path" where
  "fallback_root st cfg =
     Path (if others_destination cfg \<noteq> [] then others_destination cfg
           else if default_destination cfg \<noteq> [] then default_destination cfg
           else str_path (join_str (home st) ''Organized''))"

definition resolve_dest :: "state \<Rightarrow> config \<Rightarrow> path \<Rightarrow> string \<times> path" where
  "resolve_dest st cfg file =
     (case categorize_file_v2 file cfg of
        (cat, root) \<Rightarrow> (cat, if str_path root \<noteq> [] then root else fallback_root st cfg))"

fun preview_items_v2 :: "state \<Rightarrow> config \<Rightarrow> path list \<Rightarrow> plan_entry list" where
  "preview_items_v2 st cfg [] = []"
| "preview_items_v2 st cfg (file # files) =
     (if \<not> is_file st file then preview_items_v2 st cfg files
      else
        (case resolve_dest st cfg file of
           (cat, dest_root) \<Rightarrow>
             \<lparr>pe_src = str_path file, category = cat,
              planned_dest = str_path (join_str dest_root (path_name file))\<rparr>
             # preview_items_v2 st cfg files))"

fun build_preview_loop_v2 ::
  "state \<Rightarrow> path list \<Rightarrow> config \<Rightarrow> plan_entry list \<Rightarrow> state \<times> (exn + plan_entry list)" where
  "build_preview_loop_v2 st [] cfg plan = (st, Inr plan)"
| "build_preview_loop_v2 st (folder # rest) cfg plan =
     (if \<not> is_dir st folder then build_preview_loop_v2 st rest cfg plan
      else
        (case iterdir st folder of
           Inl e \<Rightarrow> (st, Inl e)
         | Inr files \<Rightarrow>
             build_preview_loop_v2 st rest cfg (plan @ preview_items_v2 st cfg files)))"

definition build_preview_v2 ::
  "state \<Rightarrow> path list \<Rightarrow> config \<Rightarrow> state \<times> (exn + plan_entry list)" where
  "build_preview_v2 st sources cfg = build_preview_loop_v2 st sources cfg []"

section \<open>Move executor\<close>

text \<open>\<^verbatim>\<open>str(n)\<close> for a non-negative integer: its decimal digits.\<close>

definition digit_char :: "nat \<Rightarrow> char" where
  "digit_char n = ''0123456789'' ! n"

fun show_nat :: "nat \<Rightarrow> string" where
  "show_nat n = (if n < 10 then [digit_char n] else show_nat (n div 10) @ [digit_char (n mod 10)])"

declare show_nat.simps [simp del]

text \<open>The message of an exception, \<^verbatim>\<open>str(e)\<close>.\<close>

definition quoted :: "string \<Rightarrow> string" where
  "quoted s = [CHR 0x27] @ s @ [CHR 0x27]"

fun exn_str :: "exn \<Rightarrow> string" where
  "exn_str (FileNotFoundError p) = ''[Errno 2] No such file or directory: '' @ quoted p"
| "exn_str (FileExistsError p) = ''[Errno 17] File exists: '' @ quoted p"
| "exn_str (NotADirectoryError p) = ''[Errno 20] Not a directory: '' @ quoted p"
| "exn_str (ShutilError m) = m"
| "exn_str (OSError m) = m"
| "exn_str JSONDecodeError = ''Expecting value: line 1 column 1 (char 0)''"
| "exn_str TypeError = ''argument is not iterable''"

text \<open>\<^verbatim>\<open>'\n'.join(lines)\<close>.\<close>

fun join_lines :: "string list \<Rightarrow> string" where
  "join_lines [] = []"
| "join_lines [x] = x"
| "join_lines (x # y # ys) = x @ [CHR 0x0A] @ join_lines (y # ys)"

subsection \<open>Directory creation and moves\<close>

text \<open>Some prefix of the key, the key itself included, is a regular file.\<close>

definition file_on_path :: "(string list \<times> node) list \<Rightarrow> string list \<Rightarrow> bool" where
  "file_on_path t k =
     list_ex (\<lambda>q. case lookup t q of Some (File c) \<Rightarrow> True | _ \<Rightarrow> False) (prefixes k)"

text \<open>The tree with every missing directory on the way to \<open>k\<close>, and \<open>k\<close>, created.\<close>

definition makedirs :: "(string list \<times> node) list \<Rightarrow> string list \<Rightarrow> (string list \<times> node) list" where
  "makedirs t k = t @ map (\<lambda>q. (q, Dir)) (filter (\<lambda>q. lookup t q = None) (prefixes k))"

text \<open>
  \<^verbatim>\<open>p.mkdir(parents=True, exist_ok=True)\<close>: nothing to do for a directory; a regular
  file at \<open>p\<close> or above it raises; otherwise the missing directories are created.
\<close>

definition mkdir :: "state \<Rightarrow> path \<Rightarrow> exn + state" where
  "mkdir st p =
     (let k = key st p in
      if (case lookup (fs st) k of Some (File c) \<Rightarrow> True | _ \<Rightarrow> False)
        then Inl (FileExistsError (str_path p))
      else if file_on_path (fs st) k then Inl (NotADirectoryError (str_path p))
      else Inr (st\<lparr>fs := makedirs (fs st) k\<rparr>))"

text \<open>Renaming the node at \<open>s\<close>, with all below it, to \<open>d\<close>; what was at \<open>d\<close> is replaced.\<close>

definition rekey :: "string list \<Rightarrow> string list \<Rightarrow> string list \<Rightarrow> string list" where
  "rekey s d k = (if prefix s k then d @ drop (length s) k else k)"

definition rename_tree ::
  "(string list \<times> node) list \<Rightarrow> string list \<Rightarrow> string list \<Rightarrow> (string list \<times> node) list" where
  "rename_tree t s d = map (\<lambda>e. (rekey s d (fst e), snd e)) (filter (\<lambda>e. \<not> prefix d (fst e)) t)"

text \<open>
  \<^verbatim>\<open>shutil.move(src, dst)\<close> on one device and without symbolic links. A destination
  that is a directory receives the source under its own name, unless that name is
  taken. A regular file replaces a regular file at the destination; its destination's
  parent must be a directory. A directory cannot move below itself nor onto a regular
  file; the copy that stands in for a failed rename creates the parents it misses.
\<close>

definition shutil_move :: "state \<Rightarrow> string \<Rightarrow> string \<Rightarrow> exn + state" where
  "shutil_move st src dst =
     (let t = fs st; s = key st (Path src); d0 = key st (Path dst);
          into = (lookup t d0 = Some Dir \<and> s \<noteq> d0);
          real = (if into then d0 @ [path_name (Path src)] else d0)
      in
      if s = [] then Inl (OSError ''[Errno 16] Device or resource busy'')
      else if into \<and> lookup t real \<noteq> None
        then Inl (ShutilError (''Destination path '' @ quoted dst @ '' already exists''))
      else if lookup t s = None then Inl (FileNotFoundError src)
      else if s = real then Inr st
      else if lookup t s = Some Dir then
        (if prefix s d0
           then Inl (ShutilError (''Cannot move a directory '' @ quoted src
                  @ '' into itself '' @ quoted dst @ ''.''))
         else if lookup t real \<noteq> None then Inl (FileExistsError dst)
         else if file_on_path t (butlast real) then Inl (NotADirectoryError dst)
         else Inr (st\<lparr>fs := rename_tree (makedirs t (butlast real)) s real\<rparr>))
      else
        (if lookup t (butlast real) \<noteq> Some Dir then Inl (FileNotFoundError dst)
         else Inr (st\<lparr>fs := rename_tree t s real\<rparr>)))"

subsection \<open>Collision-safe destinations\<close>

definition candidate :: "path \<Rightarrow> string \<Rightarrow> string \<Rightarrow> nat \<Rightarrow> path" where
  "candidate parent stem sfx counter =
     join_str parent (stem @ ''_'' @ show_nat counter @ sfx)"

partial_function (option) unique_dest_loop ::
  "state \<Rightarrow> path \<Rightarrow> string \<Rightarrow> string \<Rightarrow> nat \<Rightarrow> path option" where
  "unique_dest_loop st parent stem sfx counter =
     (if \<not> exists_p st (candidate parent stem sfx counter)
      then Some (candidate parent stem sfx counter)
      else unique_dest_loop st parent stem sfx (counter + 1))"

declare unique_dest_loop.simps [code]

definition unique_dest :: "state \<Rightarrow> path \<Rightarrow> path option" where
  "unique_dest st dest =
     (if \<not> exists_p st dest then Some dest
      else unique_dest_loop st (path_parent dest) (path_stem dest) (path_suffix dest) 1)"

subsection \<open>The last run\<close>

definition LAST_RUN_PATH :: "state \<Rightarrow> path" where
  "LAST_RUN_PATH st = join_str (data_dir st) ''last_run.json''"

definition CONFIG_PATH :: "state \<Rightarrow> path" where
  "CONFIG_PATH st = join_str (data_dir st) ''organizer_config.json''"

subsection \<open>Variant v1\<close>

text \<open>
  The body of the loop of \<^verbatim>\<open>perform_moves\<close> for one entry: \<open>None\<close> when the search
  for a free name does not return; otherwise the state, and the raised exception (the
  directory creation stands outside the \<^verbatim>\<open>try\<close>), the record of the move, or
  \<open>None\<close> for a move that failed and was logged.
\<close>

definition move_entry_v1 ::
  "state \<Rightarrow> plan_entry \<Rightarrow> (state \<times> (exn + move_record option)) option" where
  "move_entry_v1 st entry =
     (let src = Path (pe_src entry);
          dest_dir = path_parent (Path (planned_dest entry))
      in case mkdir st dest_dir of
           Inl e \<Rightarrow> Some (st, Inl e)
         | Inr st1 \<Rightarrow>
             (let dest = join_str dest_dir (path_name src) in
              case unique_dest st1 dest of
                None \<Rightarrow> None
              | Some safe_dest \<Rightarrow>
                  (case shutil_move st1 (str_path src) (str_path safe_dest) of
                     Inr st2 \<Rightarrow>
                       Some (logger ''INFO''
                               (''Moved: '' @ str_path src @ '' -> '' @ str_path safe_dest) st2,
                             Inr (Some \<lparr>mv_src = str_path src, mv_dest = str_path safe_dest\<rparr>))
                   | Inl e \<Rightarrow>
                       Some (logger ''ERROR''
                               (''Failed to move '' @ str_path src @ '' -> ''
                                @ str_path safe_dest @ '': '' @ exn_str e) st1,
                             Inr None))))"

fun perform_loop_v1 ::
  "state \<Rightarrow> plan_entry list \<Rightarrow> move_record list \<Rightarrow> (state \<times> (exn + move_record list)) option" where
  "perform_loop_v1 st [] performed = Some (st, Inr performed)"
| "perform_loop_v1 st (entry # rest) performed =
     (case move_entry_v1 st entry of
        None \<Rightarrow> None
      | Some (st1, Inl e) \<Rightarrow> Some (st1, Inl e)
      | Some (st1, Inr None) \<Rightarrow> perform_loop_v1 st1 rest performed
      | Some (st1, Inr (Some r)) \<Rightarrow> perform_loop_v1 st1 rest (performed @ [r]))"

definition perform_moves_v1 ::
  "state \<Rightarrow> plan_entry list \<Rightarrow> (state \<times> (exn + move_record list)) option" where
  "perform_moves_v1 st plan =
     (case perform_loop_v1 st plan [] of
        None \<Rightarrow> None
      | Some (st1, Inl e) \<Rightarrow> Some (st1, Inl e)
      | Some (st1, Inr performed) \<Rightarrow>
          if performed \<noteq> [] then
            Some (logger ''INFO''
                    (''Wrote last run with '' @ show_nat (length performed) @ '' moves to ''
                     @ str_path (LAST_RUN_PATH st1))
                    (st1\<lparr>last_run := Some \<lparr>timestamp = now st1, moves = performed\<rparr>\<rparr>),
                  Inr performed)
          else Some (st1, Inr performed))"

text \<open>
  The body of the loop of \<^verbatim>\<open>undo_last_run\<close> for one record: the raised exception
  (again the directory creation stands outside the \<^verbatim>\<open>try\<close>), or the failure line
  of a reversal that failed, or \<open>None\<close> for one that succeeded.
\<close>

definition undo_entry_v1 ::
  "state \<Rightarrow> move_record \<Rightarrow> (state \<times> (exn + string option)) option" where
  "undo_entry_v1 st mv =
     (let src = Path (mv_dest mv); dest = Path (mv_src mv) in
      case mkdir st (path_parent dest) of
        Inl e \<Rightarrow> Some (st, Inl e)
      | Inr st1 \<Rightarrow>
          (case (if exists_p st1 dest then unique_dest st1 dest else Some dest) of
             None \<Rightarrow> None
           | Some final_dest \<Rightarrow>
               (case shutil_move st1 (str_path src) (str_path final_dest) of
                  Inr st2 \<Rightarrow>
                    Some (logger ''INFO''
                            (''Undid move: '' @ str_path src @ '' -> '' @ str_path final_dest)
                            st2,
                          Inr None)
                | Inl e \<Rightarrow>
                    Some (logger ''ERROR''
                            (''Failed to undo '' @ str_path src @ '' -> '' @ str_path dest
                             @ '': '' @ exn_str e) st1,
                          Inr (Some (str_path src @ '' -> '' @ str_path dest @ '': ''
                                     @ exn_str e))))))"

fun undo_loop_v1 ::
  "state \<Rightarrow> move_record list \<Rightarrow> string list \<Rightarrow> (state \<times> (exn + string list)) option" where
  "undo_loop_v1 st [] failures = Some (st, Inr failures)"
| "undo_loop_v1 st (mv # rest) failures =
     (case undo_entry_v1 st mv of
        None \<Rightarrow> None
      | Some (st1, Inl e) \<Rightarrow> Some (st1, Inl e)
      | Some (st1, Inr None) \<Rightarrow> undo_loop_v1 st1 rest failures
      | Some (st1, Inr (Some f)) \<Rightarrow> undo_loop_v1 st1 rest (failures @ [f]))"

definition undo_last_run_v1 :: "state \<Rightarrow> (state \<times> (exn + bool \<times> string)) option" where
  "undo_last_run_v1 st =
     (case last_run st of
        None \<Rightarrow> Some (st, Inr (False, ''No last run recorded.''))
      | Some record \<Rightarrow>
          (case undo_loop_v1 st (rev (moves record)) [] of
             None \<Rightarrow> None
           | Some (st1, Inl e) \<Rightarrow> Some (st1, Inl e)
           | Some (st1, Inr failures) \<Rightarrow>
               if failures \<noteq> [] then
                 Some (st1, Inr (False, ''Some files failed to undo:'' @ [CHR 0x0A]
                                        @ join_lines failures))
               else
                 Some (st1\<lparr>last_run := None\<rparr>,
                       Inr (True, ''Undid '' @ show_nat (length (moves record)) @ '' moves.''))))"

subsection \<open>Variant v2\<close>

definition move_entry_v2 ::
  "state \<Rightarrow> plan_entry \<Rightarrow> (state \<times> (exn + move_record option)) option" where
  "move_entry_v2 st entry =
     (let src = Path (pe_src entry); dest = Path (planned_dest entry) in
      case mkdir st (path_parent dest) of
        Inl e \<Rightarrow> Some (st, Inl e)
      | Inr st1 \<Rightarrow>
          (case unique_dest st1 dest of
             None \<Rightarrow> None
           | Some safe_dest \<Rightarrow>
               (case shutil_move st1 (str_path src) (str_path safe_dest) of
                  Inr st2 \<Rightarrow>
                    Some (st2, Inr (Some \<lparr>mv_src = str_path src, mv_dest = str_path safe_dest\<rparr>))
                | Inl e \<Rightarrow>
                    Some (logger ''ERROR''
                            (''Failed to move '' @ str_path src @ '': '' @ exn_str e) st1,
                          Inr None))))"

fun perform_loop_v2 ::
  "state \<Rightarrow> plan_entry list \<Rightarrow> move_record list \<Rightarrow> (state \<times> (exn + move_record list)) option" where
  "perform_loop_v2 st [] performed = Some (st, Inr performed)"
| "perform_loop_v2 st (entry # rest) performed =
     (case move_entry_v2 st entry of
        None \<Rightarrow> None
      | Some (st1, Inl e) \<Rightarrow> Some (st1, Inl e)
      | Some (st1, Inr None) \<Rightarrow> perform_loop_v2 st1 rest performed
      | Some (st1, Inr (Some r)) \<Rightarrow> perform_loop_v2 st1 rest (performed @ [r]))"

definition perform_moves_v2 ::
  "state \<Rightarrow> plan_entry list \<Rightarrow> (state \<times> (exn + move_record list)) option" where
  "perform_moves_v2 st plan =
     (case perform_loop_v2 st plan [] of
        None \<Rightarrow> None
      | Some (st1, Inl e) \<Rightarrow> Some (st1, Inl e)
      | Some (st1, Inr performed) \<Rightarrow>
          if performed \<noteq> [] then
            Some (st1\<lparr>last_run := Some \<lparr>timestamp = now st1, moves = performed\<rparr>\<rparr>, Inr performed)
          else Some (st1, Inr performed))"

text \<open>In variant v2 the directory creation stands inside the \<^verbatim>\<open>try\<close>.\<close>

definition undo_entry_v2 :: "state \<Rightarrow> move_record \<Rightarrow> (state \<times> string option) option" where
  "undo_entry_v2 st mv =
     (let src = Path (mv_dest mv); dest = Path (mv_src mv) in
      case mkdir st (path_parent dest) of
        Inl e \<Rightarrow> Some (st, Some (str_path src @ '' -> '' @ str_path dest @ '': '' @ exn_str e))
      | Inr st1 \<Rightarrow>
          (case unique_dest st1 dest of
             None \<Rightarrow> None
           | Some final_dest \<Rightarrow>
               (case shutil_move st1 (str_path src) (str_path final_dest) of
                  Inr st2 \<Rightarrow> Some (st2, None)
                | Inl e \<Rightarrow>
                    Some (st1, Some (str_path src @ '' -> '' @ str_path dest @ '': ''
                                     @ exn_str e)))))"

fun undo_loop_v2 ::
  "state \<Rightarrow> move_record list \<Rightarrow> string list \<Rightarrow> (state \<times> string list) option" where
  "undo_loop_v2 st [] failures = Some (st, failures)"
| "undo_loop_v2 st (mv # rest) failures =
     (case undo_entry_v2 st mv of
        None \<Rightarrow> None
      | Some (st1, None) \<Rightarrow> undo_loop_v2 st1 rest failures
      | Some (st1, Some f) \<Rightarrow> undo_loop_v2 st1 rest (failures @ [f]))"

definition undo_last_run_v2 :: "state \<Rightarrow> (state \<times> (exn + bool \<times> string)) option" where
  "undo_last_run_v2 st =
     (case last_run st of
        None \<Rightarrow> Some (st, Inr (False, ''No last run recorded.''))
      | Some record \<Rightarrow>
          (case undo_loop_v2 st (rev (moves record)) [] of
             None \<Rightarrow> None
           | Some (st1, failures) \<Rightarrow>
               if failures \<noteq> [] then
                 Some (st1, Inr (False, ''Some undo'' @ [CHR 0x27] @ ''s failed:'' @ [CHR 0x0A]
                                        @ join_lines failures))
               else
                 Some (st1\<lparr>last_run := None\<rparr>,
                       Inr (True, ''Undid '' @ show_nat (length (moves record)) @ '' moves.''))))"

section \<open>Rule store\<close>

text \<open>\<^verbatim>\<open>key in cfg\<close> and \<^verbatim>\<open>cfg[key] = v\<close> on what \<^verbatim>\<open>json.load\<close> returned.\<close>

fun json_has_key :: "string \<Rightarrow> json \<Rightarrow> exn + bool" where
  "json_has_key k (JObj kvs) = Inr (k \<in> set (map fst kvs))"
| "json_has_key k (JArr xs) = Inr (JStr k \<in> set xs)"
| "json_has_key k (JStr s) = Inr (sublist k s)"
| "json_has_key k (JNum n) = Inl TypeError"
| "json_has_key k (JBool b) = Inl TypeError"
| "json_has_key k JNull = Inl TypeError"

fun json_set :: "string \<Rightarrow> json \<Rightarrow> json \<Rightarrow> exn + json" where
  "json_set k v (JObj kvs) = Inr (JObj (AList.update k v kvs))"
| "json_set k v j = Inl TypeError"

definition rule :: "string list \<Rightarrow> json" where
  "rule exts = JObj [(''extensions'', JArr (map JStr exts)), (''destination'', JStr [])]"

definition DEFAULT_CATEGORIES_v1 :: json where
  "DEFAULT_CATEGORIES_v1 =
     JObj [(''Images'', rule [''.jpg'', ''.jpeg'', ''.png'', ''.gif'', ''.bmp'', ''.svg'', ''.webp'']),
           (''Videos'', rule [''.mp4'', ''.mkv'', ''.mov'', ''.avi'', ''.webm'']),
           (''Documents'',
              rule [''.pdf'', ''.docx'', ''.doc'', ''.txt'', ''.pptx'', ''.xlsx'', ''.odt'']),
           (''Archives'', rule [''.zip'', ''.rar'', ''.tar'', ''.gz'', ''.7z'']),
           (''Code'',
              rule [''.py'', ''.js'', ''.java'', ''.cpp'', ''.c'', ''.cs'', ''.html'', ''.css''])]"

definition DEFAULT_CONFIG_v1 :: json where
  "DEFAULT_CONFIG_v1 =
     JObj [(''categories'', DEFAULT_CATEGORIES_v1),
           (''others_destination'', JStr []),
           (''safe_mode'', JBool True),
           (''move_on_preview_confirm'', JBool True),
           (''monitoring_enabled'', JBool True),
           (''monitor_patterns'', JArr [JStr ''*''])]"

definition DEFAULT_CATEGORIES_v2 :: json where
  "DEFAULT_CATEGORIES_v2 =
     JObj [(''Images'', rule [''.jpg'', ''.jpeg'', ''.png'']),
           (''Videos'', rule [''.mp4'', ''.mkv'']),
           (''Documents'', rule [''.pdf'', ''.docx'', ''.txt''])]"

definition DEFAULT_CONFIG_v2 :: json where
  "DEFAULT_CONFIG_v2 =
     JObj [(''categories'', DEFAULT_CATEGORIES_v2),
           (''others_destination'', JStr []),
           (''monitoring_enabled'', JBool True),
           (''monitor_patterns'', JArr [JStr ''*''])]"

definition save_config_v1 :: "json \<Rightarrow> state \<Rightarrow> state" where
  "save_config_v1 cfg st =
     logger ''INFO'' (''Config saved to '' @ str_path (CONFIG_PATH st))
       (st\<lparr>config_file := Json cfg\<rparr>)"

definition save_config_v2 :: "json \<Rightarrow> state \<Rightarrow> state" where
  "save_config_v2 cfg st = st\<lparr>config_file := Json cfg\<rparr>"

text \<open>The lines after \<^verbatim>\<open>json.load\<close>: a record without categories gets the default ones.\<close>

definition ensure_categories :: "json \<Rightarrow> json \<Rightarrow> exn + json" where
  "ensure_categories dflt cfg =
     (case json_has_key ''categories'' cfg of
        Inl e \<Rightarrow> Inl e
      | Inr has \<Rightarrow> if \<not> has then json_set ''categories'' dflt cfg else Inr cfg)"

text \<open>Variant v1 reads and completes the record without a \<^verbatim>\<open>try\<close>.\<close>

definition load_config_v1 :: "state \<Rightarrow> state \<times> (exn + json)" where
  "load_config_v1 st =
     (case config_file st of
        NoFile \<Rightarrow>
          (logger ''INFO'' (''Saved default config to '' @ str_path (CONFIG_PATH st))
             (save_config_v1 DEFAULT_CONFIG_v1 st),
           Inr DEFAULT_CONFIG_v1)
      | NotJson \<Rightarrow> (st, Inl JSONDecodeError)
      | Json cfg \<Rightarrow> (st, ensure_categories DEFAULT_CATEGORIES_v1 cfg))"

text \<open>Variant v2 catches every exception of the same lines.\<close>

definition load_config_v2 :: "state \<Rightarrow> state \<times> (exn + json)" where
  "load_config_v2 st =
     (case config_file st of
        NoFile \<Rightarrow> (save_config_v2 DEFAULT_CONFIG_v2 st, Inr DEFAULT_CONFIG_v2)
      | _ \<Rightarrow>
          (case (case config_file st of
                   Json cfg \<Rightarrow> ensure_categories DEFAULT_CATEGORIES_v2 cfg
                 | _ \<Rightarrow> Inl JSONDecodeError) of
             Inr cfg \<Rightarrow> (st, Inr cfg)
           | Inl e \<Rightarrow>
               (logger ''ERROR'' (''Config corrupted, using defaults: '' @ exn_str e) st,
                Inr DEFAULT_CONFIG_v2)))"

section \<open>The specification's vocabulary\<close>

text \<open>
  The spec's words for the plan builder, written independently of the code: a rule
  matches a file when its extension set contains the file's extension under
  case-insensitive comparison; the matched rule is the first matching rule in insertion
  order; its category and destination fall back to \<open>''Others''\<close> and the
  \<^verbatim>\<open>others_destination\<close>; the target root is the destination when that is a
  non-empty absolute path and the source folder otherwise.
\<close>

definition ext_in_rule :: "string \<Rightarrow> catinfo \<Rightarrow> bool" where
  "ext_in_rule ext info = list_ex (\<lambda>x. lower x = lower ext) (extensions info)"

definition matched_rule :: "config \<Rightarrow> string \<Rightarrow> (string \<times> catinfo) option" where
  "matched_rule cfg ext = find (\<lambda>r. ext_in_rule ext (snd r)) (categories cfg)"

definition spec_category :: "config \<Rightarrow> string \<Rightarrow> string" where
  "spec_category cfg ext = (case matched_rule cfg ext of Some r \<Rightarrow> fst r | None \<Rightarrow> ''Others'')"

definition spec_destination :: "config \<Rightarrow> string \<Rightarrow> string" where
  "spec_destination cfg ext =
     (case matched_rule cfg ext of
        Some r \<Rightarrow> destination (snd r)
      | None \<Rightarrow> others_destination cfg)"

definition spec_target_root :: "config \<Rightarrow> path \<Rightarrow> string \<Rightarrow> path" where
  "spec_target_root cfg source ext =
     (let d = spec_destination cfg ext in
      if d \<noteq> [] \<and> is_absolute (Path d) then Path d else source)"

section \<open>Well-formed paths and trees, and the trace of a batch\<close>

text \<open>
  What \<^verbatim>\<open>Path(s)\<close> can return: one of the three roots, and components that are
  neither empty nor \<open>''.''\<close> and hold no separator.
\<close>

definition wf_path :: "path \<Rightarrow> bool" where
  "wf_path p =
     (proot p \<in> set [[], ''/'', ''//''] \<and>
      list_all (\<lambda>c. c \<noteq> [] \<and> c \<noteq> ''.'' \<and> CHR ''/'' \<notin> set c) (parts p))"

text \<open>A directory tree: every entry but the root lies in a directory.\<close>

definition wf_fs :: "(string list \<times> node) list \<Rightarrow> bool" where
  "wf_fs t = list_all (\<lambda>e. fst e = [] \<or> lookup t (butlast (fst e)) = Some Dir) t"

text \<open>Two states of one session: all but the tree and the log agree.\<close>

definition same_session :: "state \<Rightarrow> state \<Rightarrow> bool" where
  "same_session st st' =
     (cwd st' = cwd st \<and> home st' = home st \<and> data_dir st' = data_dir st \<and>
      config_file st' = config_file st \<and> last_run st' = last_run st \<and> now st' = now st)"



text \<open>
  One tree is another one grown by directories: it agrees with it everywhere except
  that it may have a directory where the other has nothing.
\<close>

abbreviation grown :: "(string list \<times> node) list \<Rightarrow> (string list \<times> node) list \<Rightarrow> bool" where
  "grown u s \<equiv> \<forall>p. lookup u p = lookup s p \<or> (lookup s p = None \<and> lookup u p = Some Dir)"

section \<open>Example inputs\<close>

text \<open>
  Scenario A of the spec: a folder \<open>/f\<close> holding \<open>report.pdf\<close>, and a rule set
  mapping \<open>.pdf\<close> to \<open>Documents\<close> with an empty destination.
\<close>

definition pdf_rules :: config where
  "pdf_rules =
     \<lparr>categories = [(''Documents'', \<lparr>extensions = [''.pdf''], destination = ''''\<rparr>)],
      others_destination = '''', default_destination = ''''\<rparr>"

definition report_state :: state where
  "report_state =
     \<lparr>fs = [([''f''], Dir), ([''f'', ''report.pdf''], File ''pdf bytes''), ([''w''], Dir)],
      cwd = [''w''], home = Path ''/home/u'', data_dir = Path ''/home/u/.data'',
      config_file = NoFile, last_run = None,
      log = [], now = ''2025-01-01T00:00:00+00:00''\<rparr>"

definition report_entry_v1 :: plan_entry where
  "report_entry_v1 =
     \<lparr>pe_src = ''/f/report.pdf'', category = ''Documents'',
      planned_dest = ''/f/Documents/report.pdf''\<rparr>"

definition report_entry_v2 :: plan_entry where
  "report_entry_v2 =
     \<lparr>pe_src = ''/f/report.pdf'', category = ''Documents'', planned_dest = ''report.pdf''\<rparr>"

text \<open>Two rules claiming \<open>.txt\<close>, the first with an absolute destination.\<close>

definition txt_rules :: config where
  "txt_rules =
     \<lparr>categories =
        [(''Notes'', \<lparr>extensions = [''.TXT'', ''.md''], destination = ''/srv/notes''\<rparr>),
         (''Text'', \<lparr>extensions = [''.txt''], destination = ''''\<rparr>)],
      others_destination = '''', default_destination = ''''\<rparr>"

definition notes_state :: state where
  "notes_state =
     \<lparr>fs = [([''f''], Dir), ([''f'', ''todo.Txt''], File ''t''), ([''f'', ''sub''], Dir),
            ([''w''], Dir)],
      cwd = [''w''], home = Path ''/home/u'', data_dir = Path ''/home/u/.data'',
      config_file = NoFile, last_run = None,
      log = [], now = ''2025-01-01T00:00:00+00:00''\<rparr>"

definition notes_entry_v1 :: plan_entry where
  "notes_entry_v1 =
     \<lparr>pe_src = ''/f/todo.Txt'', category = ''Notes'',
      planned_dest = ''/srv/notes/Notes/todo.Txt''\<rparr>"

definition notes_entry_v2 :: plan_entry where
  "notes_entry_v2 =
     \<lparr>pe_src = ''/f/todo.Txt'', category = ''Notes'', planned_dest = ''/srv/notes/todo.Txt''\<rparr>"



text \<open>
  A last run of two moves out of \<open>/f\<close> and \<open>/f/d\<close>, after which \<open>/f/d\<close> was
  replaced by a regular file; the configuration file holds a text that is not JSON.
\<close>

definition blocked_undo_state :: state where
  "blocked_undo_state =
     \<lparr>fs = [([''f''], Dir), ([''f'', ''d''], File ''now a file''), ([''g''], Dir),
            ([''g'', ''k.txt''], File ''k''), ([''g'', ''a.txt''], File ''a''), ([''w''], Dir)],
      cwd = [''w''], home = Path ''/home/u'', data_dir = Path ''/home/u/.data'',
      config_file = NotJson,
      last_run = Some \<lparr>timestamp = ''2025-01-01T00:00:00+00:00'',
        moves = [\<lparr>mv_src = ''/f/k.txt'', mv_dest = ''/g/k.txt''\<rparr>,
                 \<lparr>mv_src = ''/f/d/a.txt'', mv_dest = ''/g/a.txt''\<rparr>]\<rparr>,
      log = [], now = ''2025-01-02T00:00:00+00:00''\<rparr>"

text \<open>Scenario A with a configuration file whose text is not JSON.\<close>

definition corrupt_config_state :: state where
  "corrupt_config_state = report_state\<lparr>config_file := NotJson\<rparr>"




text \<open>
  Scenario C of the spec: \<open>photo.png\<close> is to move into a directory that already holds
  a \<open>photo.png\<close>, and here a \<open>photo_1.png\<close> as well.
\<close>

definition collision_state :: state where
  "collision_state =
     \<lparr>fs = [([''f''], Dir), ([''f'', ''Images''], Dir),
            ([''f'', ''Images'', ''photo.png''], File ''old''),
            ([''f'', ''Images'', ''photo_1.png''], File ''older''),
            ([''f'', ''photo.png''], File ''new''), ([''w''], Dir)],
      cwd = [''w''], home = Path ''/home/u'', data_dir = Path ''/home/u/.data'',
      config_file = NoFile, last_run = None,
      log = [], now = ''2025-01-01T00:00:00+00:00''\<rparr>"

definition collision_plan :: "plan_entry list" where
  "collision_plan =
     [\<lparr>pe_src = ''/f/photo.png'', category = ''Images'',
       planned_dest = ''/f/Images/photo.png''\<rparr>]"


section \<open>Properties of the plan builder\<close>

subsection \<open>Categorisation follows the first matching rule\<close>

lemma member_lower_iff:
  "lower ext \<in> set (map lower (extensions info)) = ext_in_rule ext info"
  by (auto simp: ext_in_rule_def list_ex_iff image_iff eq_commute)

lemma categorize_loop_v1_find:
  "categorize_loop_v1 (lower ext) cats =
     map_option (\<lambda>r. (fst r, Path (destination (snd r))))
       (find (\<lambda>r. ext_in_rule ext (snd r)) cats)"
  by (induction cats) (auto simp: member_lower_iff Let_def simp del: set_map)

lemma categorize_loop_v2_find:
  "categorize_loop_v2 (lower ext) cats =
     map_option (\<lambda>r. (fst r, Path (destination (snd r))))
       (find (\<lambda>r. ext_in_rule ext (snd r)) cats)"
  by (induction cats) (auto simp: member_lower_iff simp del: set_map)

lemma categorize_file_v1_spec:
  "categorize_file_v1 file cfg =
     (spec_category cfg (path_suffix file), Path (spec_destination cfg (path_suffix file)))"
  by (simp add: categorize_file_v1_def categorize_loop_v1_find spec_category_def
      spec_destination_def matched_rule_def split: option.splits)

lemma categorize_file_v2_spec:
  "categorize_file_v2 file cfg =
     (spec_category cfg (path_suffix file), Path (spec_destination cfg (path_suffix file)))"
  by (simp add: categorize_file_v2_def categorize_loop_v2_find spec_category_def
      spec_destination_def matched_rule_def split: option.splits)





subsection \<open>What an entry of a plan holds\<close>

lemma str_path_nonempty: "str_path p \<noteq> []"
  by (simp add: str_path_def Let_def)

lemma empty_not_absolute: "\<not> is_absolute (Path [])"
  by (simp add: is_absolute_def Path_def splitroot_def)

lemma path_name_child [simp]: "path_name (make_child_relpath p n) = n"
  by (simp add: path_name_def make_child_relpath_def)

lemma path_suffix_child: "path_suffix (make_child_relpath p n) = path_suffix (PurePath [] [n])"
  by (simp add: path_suffix_def path_name_def make_child_relpath_def)

lemma preview_items_v1_entry:
  "e \<in> set (preview_items_v1 st cfg source items) \<Longrightarrow>
   \<exists>item\<in>set items. is_file st item \<and> pe_src e = str_path item \<and>
     category e = spec_category cfg (path_suffix item) \<and>
     planned_dest e =
       str_path (join_str (join_str (spec_target_root cfg source (path_suffix item))
         (spec_category cfg (path_suffix item))) (path_name item))"
proof (induction items)
  case Nil
  then show ?case by simp
next
  case (Cons item items)
  show ?case
  proof (cases "is_file st item")
    case False
    with Cons show ?thesis by auto
  next
    case True
    have root: "(if path_truthy (Path d) \<and> is_absolute (Path d)
                 then join_str (Path d) c else join_str source c)
        = join_str (if d \<noteq> [] \<and> is_absolute (Path d) then Path d else source) c" for d c
      using empty_not_absolute by (auto simp: path_truthy_def)
    from Cons.prems True consider
      (head) "e = \<lparr>pe_src = str_path item, category = spec_category cfg (path_suffix item),
         planned_dest =
           str_path (join_str (join_str (spec_target_root cfg source (path_suffix item))
             (spec_category cfg (path_suffix item))) (path_name item))\<rparr>"
      | (tail) "e \<in> set (preview_items_v1 st cfg source items)"
      by (auto simp: categorize_file_v1_spec Let_def root spec_target_root_def)
    then show ?thesis
    proof cases
      case head
      with True show ?thesis by simp
    next
      case tail
      with Cons.IH show ?thesis by auto
    qed
  qed
qed

lemma preview_items_v2_entry:
  "e \<in> set (preview_items_v2 st cfg items) \<Longrightarrow>
   \<exists>item\<in>set items. is_file st item \<and> pe_src e = str_path item \<and>
     category e = spec_category cfg (path_suffix item) \<and>
     planned_dest e =
       str_path (join_str (Path (spec_destination cfg (path_suffix item))) (path_name item))"
proof (induction items)
  case Nil
  then show ?case by simp
next
  case (Cons item items)
  then show ?case
    by (cases "is_file st item")
       (auto simp: resolve_dest_def categorize_file_v2_spec str_path_nonempty)
qed

lemma iterdir_items:
  "iterdir st p = Inr items \<Longrightarrow>
   items = map (make_child_relpath p) (children (fs st) (key st p)) \<and> is_dir st p"
  by (auto simp: iterdir_def is_dir_def split: option.splits node.splits)

subsection \<open>Logging leaves the directory tree alone\<close>

lemma logger_fields [simp]:
  "fs (logger l m st) = fs st" "cwd (logger l m st) = cwd st" "home (logger l m st) = home st"
  "data_dir (logger l m st) = data_dir st"
  "last_run (logger l m st) = last_run st" "config_file (logger l m st) = config_file st"
  "now (logger l m st) = now st"
  by (simp_all add: logger_def)

lemma same_tree_key: "cwd st' = cwd st \<Longrightarrow> key st' p = key st p"
  by (simp add: key_def)

lemma same_tree_reads:
  assumes "fs st' = fs st" "cwd st' = cwd st"
  shows "exists_p st' p = exists_p st p" "is_file st' p = is_file st p"
    "is_dir st' p = is_dir st p" "iterdir st' p = iterdir st p"
  using assms same_tree_key[OF assms(2)]
  by (simp_all add: exists_p_def is_file_def is_dir_def iterdir_def
      split: option.splits node.splits)

lemma preview_items_v1_same_tree:
  assumes "fs st' = fs st" "cwd st' = cwd st"
  shows "preview_items_v1 st' cfg source items = preview_items_v1 st cfg source items"
  by (induction items) (simp_all add: same_tree_reads(2)[OF assms])

lemma preview_items_v2_same_tree:
  assumes "fs st' = fs st" "cwd st' = cwd st" "home st' = home st"
  shows "preview_items_v2 st' cfg items = preview_items_v2 st cfg items"
proof -
  have "resolve_dest st' cfg f = resolve_dest st cfg f" for f
    by (simp add: resolve_dest_def fallback_root_def assms(3) split: prod.splits)
  then show ?thesis
    by (induction items) (simp_all add: same_tree_reads(2)[OF assms(1,2)])
qed

lemma build_preview_loop_v1_frame:
  "fs (fst (build_preview_loop_v1 st srcs cfg acc)) = fs st \<and>
   cwd (fst (build_preview_loop_v1 st srcs cfg acc)) = cwd st \<and>
   home (fst (build_preview_loop_v1 st srcs cfg acc)) = home st \<and>
   last_run (fst (build_preview_loop_v1 st srcs cfg acc)) = last_run st \<and>
   config_file (fst (build_preview_loop_v1 st srcs cfg acc)) = config_file st"
  by (induction srcs arbitrary: st acc) (auto split: sum.splits)

lemma build_preview_loop_v2_frame:
  "fst (build_preview_loop_v2 st srcs cfg acc) = st"
  by (induction srcs arbitrary: acc) (auto split: sum.splits)

lemma build_preview_loop_v1_same_tree:
  "fs st' = fs st \<Longrightarrow> cwd st' = cwd st \<Longrightarrow>
   snd (build_preview_loop_v1 st' srcs cfg acc) = snd (build_preview_loop_v1 st srcs cfg acc)"
proof (induction srcs arbitrary: st st' acc)
  case Nil
  then show ?case by simp
next
  case (Cons source rest)
  have "snd (build_preview_loop_v1 (logger l m st') rest cfg acc)
      = snd (build_preview_loop_v1 (logger l m st) rest cfg acc)" for l m
    using Cons.prems by (intro Cons.IH) simp_all
  moreover have "snd (build_preview_loop_v1 st' rest cfg acc')
      = snd (build_preview_loop_v1 st rest cfg acc')" for acc'
    using Cons.prems by (intro Cons.IH)
  ultimately show ?case
    using Cons.prems
    by (simp add: same_tree_reads[OF Cons.prems] preview_items_v1_same_tree[OF Cons.prems]
        split: sum.splits)
qed

lemma build_preview_v1_same_tree:
  "fs st' = fs st \<Longrightarrow> cwd st' = cwd st \<Longrightarrow>
   snd (build_preview_v1 st' srcs cfg) = snd (build_preview_v1 st srcs cfg)"
  unfolding build_preview_v1_def by (rule build_preview_loop_v1_same_tree)

lemma build_preview_loop_v2_same_tree:
  "fs st' = fs st \<Longrightarrow> cwd st' = cwd st \<Longrightarrow> home st' = home st \<Longrightarrow>
   snd (build_preview_loop_v2 st' srcs cfg acc) = snd (build_preview_loop_v2 st srcs cfg acc)"
proof (induction srcs arbitrary: acc)
  case Nil
  then show ?case by simp
next
  case (Cons source rest)
  then show ?case
    by (simp add: same_tree_reads[OF Cons.prems(1,2)] preview_items_v2_same_tree[OF Cons.prems]
        split: sum.splits)
qed

lemma build_preview_loop_v1_entries:
  "snd (build_preview_loop_v1 st srcs cfg acc) = Inr plan \<Longrightarrow> e \<in> set plan \<Longrightarrow>
   e \<in> set acc \<or>
   (\<exists>source\<in>set srcs. \<exists>items. iterdir st source = Inr items \<and>
      e \<in> set (preview_items_v1 st cfg source items))"
proof (induction srcs arbitrary: st acc)
  case Nil
  then show ?case by simp
next
  case (Cons source rest)
  show ?case
  proof (cases "exists_p st source")
    case False
    define st1 where "st1 = logger ''WARNING'' (''Source not found: '' @ str_path source) st"
    have same: "fs st1 = fs st" "cwd st1 = cwd st" by (simp_all add: st1_def)
    from Cons.prems False
    have "snd (build_preview_loop_v1 st1 rest cfg acc) = Inr plan" by (simp add: st1_def)
    from Cons.IH[OF this Cons.prems(2)] show ?thesis
      unfolding same_tree_reads(4)[OF same] preview_items_v1_same_tree[OF same] by auto
  next
    case True
    show ?thesis
    proof (cases "iterdir st source")
      case (Inl err)
      with Cons.prems True show ?thesis by simp
    next
      case (Inr items)
      with Cons.prems True
      have "snd (build_preview_loop_v1 st rest cfg (acc @ preview_items_v1 st cfg source items))
          = Inr plan" by simp
      from Cons.IH[OF this Cons.prems(2)] Inr show ?thesis by auto
    qed
  qed
qed

lemma build_preview_loop_v2_entries:
  "snd (build_preview_loop_v2 st srcs cfg acc) = Inr plan \<Longrightarrow> e \<in> set plan \<Longrightarrow>
   e \<in> set acc \<or>
   (\<exists>folder\<in>set srcs. \<exists>files. iterdir st folder = Inr files \<and>
      e \<in> set (preview_items_v2 st cfg files))"
proof (induction srcs arbitrary: acc)
  case Nil
  then show ?case by simp
next
  case (Cons folder rest)
  show ?case
  proof (cases "is_dir st folder")
    case False
    with Cons show ?thesis by auto
  next
    case True
    show ?thesis
    proof (cases "iterdir st folder")
      case (Inl err)
      with Cons.prems True show ?thesis by simp
    next
      case (Inr files)
      with Cons.prems True
      have "snd (build_preview_loop_v2 st rest cfg (acc @ preview_items_v2 st cfg files))
          = Inr plan" by simp
      from Cons.IH[OF this Cons.prems(2)] Inr show ?thesis by auto
    qed
  qed
qed

text \<open>
  Every entry of a plan comes from a regular file that is a direct child of one of the
  source folders, and holds what the spec's vocabulary says for that file.
\<close>

lemma build_preview_v1_entry:
  assumes "snd (build_preview_v1 st sources cfg) = Inr plan" and "e \<in> set plan"
  shows "\<exists>source\<in>set sources. \<exists>n.
           is_dir st source \<and> is_file st (make_child_relpath source n) \<and>
           pe_src e = str_path (make_child_relpath source n) \<and>
           category e = spec_category cfg (path_suffix (make_child_relpath source n)) \<and>
           planned_dest e =
             str_path (join_str (join_str
               (spec_target_root cfg source (path_suffix (make_child_relpath source n)))
               (spec_category cfg (path_suffix (make_child_relpath source n)))) n)"
proof -
  from build_preview_loop_v1_entries[OF assms[unfolded build_preview_v1_def]]
  obtain source items where s: "source \<in> set sources" "iterdir st source = Inr items"
    "e \<in> set (preview_items_v1 st cfg source items)" by auto
  from preview_items_v1_entry[OF s(3)] obtain item where i: "item \<in> set items"
    "is_file st item" "pe_src e = str_path item"
    "category e = spec_category cfg (path_suffix item)"
    "planned_dest e = str_path (join_str (join_str (spec_target_root cfg source (path_suffix item))
         (spec_category cfg (path_suffix item))) (path_name item))" by auto
  from iterdir_items[OF s(2)] i(1) obtain n where n: "item = make_child_relpath source n"
    and d: "is_dir st source" by auto
  show ?thesis
    using s(1) d i(2-5) unfolding n path_name_child
    by (intro bexI[of _ source] exI[of _ n]) simp_all
qed

lemma build_preview_v2_entry:
  assumes "snd (build_preview_v2 st sources cfg) = Inr plan" and "e \<in> set plan"
  shows "\<exists>folder\<in>set sources. \<exists>n.
           is_dir st folder \<and> is_file st (make_child_relpath folder n) \<and>
           pe_src e = str_path (make_child_relpath folder n) \<and>
           category e = spec_category cfg (path_suffix (make_child_relpath folder n)) \<and>
           planned_dest e =
             str_path (join_str
               (Path (spec_destination cfg (path_suffix (make_child_relpath folder n)))) n)"
proof -
  from build_preview_loop_v2_entries[OF assms[unfolded build_preview_v2_def]]
  obtain folder files where s: "folder \<in> set sources" "iterdir st folder = Inr files"
    "e \<in> set (preview_items_v2 st cfg files)" by auto
  from preview_items_v2_entry[OF s(3)] obtain item where i: "item \<in> set files"
    "is_file st item" "pe_src e = str_path item"
    "category e = spec_category cfg (path_suffix item)"
    "planned_dest e =
       str_path (join_str (Path (spec_destination cfg (path_suffix item))) (path_name item))"
    by auto
  from iterdir_items[OF s(2)] i(1) obtain n where n: "item = make_child_relpath folder n"
    and d: "is_dir st folder" by auto
  show ?thesis
    using s(1) d i(2-5) unfolding n path_name_child
    by (intro bexI[of _ folder] exI[of _ n]) simp_all
qed

lemma build_preview_v2_returns: "\<exists>plan. snd (build_preview_loop_v2 st srcs cfg acc) = Inr plan"
proof (induction srcs arbitrary: acc)
  case Nil
  then show ?case by simp
next
  case (Cons folder rest)
  show ?case
  proof (cases "is_dir st folder")
    case False
    with Cons show ?thesis by simp
  next
    case True
    then obtain files where "iterdir st folder = Inr files"
      by (auto simp: is_dir_def iterdir_def)
    with True Cons show ?thesis by simp
  qed
qed

lemma repeated_preview_v1_tree:
  "fs (((\<lambda>s. fst (build_preview_v1 s srcs cfg)) ^^ n) st) = fs st \<and>
   cwd (((\<lambda>s. fst (build_preview_v1 s srcs cfg)) ^^ n) st) = cwd st \<and>
   last_run (((\<lambda>s. fst (build_preview_v1 s srcs cfg)) ^^ n) st) = last_run st \<and>
   config_file (((\<lambda>s. fst (build_preview_v1 s srcs cfg)) ^^ n) st) = config_file st"
  by (induction n) (simp_all add: build_preview_v1_def build_preview_loop_v1_frame)

lemma repeated_preview_v2_state:
  "((\<lambda>s. fst (build_preview_v2 s srcs cfg)) ^^ n) st = st"
  by (induction n) (simp_all add: build_preview_v2_def build_preview_loop_v2_frame)

lemma scenario_a_reads:
  "path_suffix (PurePath [] [''report.pdf'']) = ''.pdf''" "lower ''.pdf'' = ''.pdf''"
  "Path ''Documents'' = PurePath [] [''Documents'']"
  "Path ''report.pdf'' = PurePath [] [''report.pdf'']"
  "spec_category pdf_rules ''.pdf'' = ''Documents''"
  "spec_destination pdf_rules ''.pdf'' = []"
  by code_simp+

section \<open>The claims about the plan builder\<close>



text \<open>
  Claim C1, as the code has it. In variant v1 every entry of a plan has the planned
  destination target-root / category / base name, where the target root is the matched
  rule's destination (the \<open>Others\<close> fallback's for an unmatched file) when that is a
  non-empty absolute path and the file's own source folder otherwise; in particular a
  folder holding only \<open>report.pdf\<close>, with the rule mapping \<open>.pdf\<close> to
  \<open>Documents\<close> with an empty destination, gives the single entry of category
  \<open>Documents\<close> planned at folder/Documents/report.pdf. In variant v2 an entry whose
  matched rule has a non-empty absolute destination is planned at destination / base
  name, with no category subfolder.
\<close>

theorem planned_destination_by_variant:
  "(snd (build_preview_v1 st sources cfg) = Inr plan \<longrightarrow>
      (\<forall>e\<in>set plan. \<exists>source\<in>set sources. \<exists>n.
         pe_src e = str_path (make_child_relpath source n) \<and>
         category e = spec_category cfg (path_suffix (make_child_relpath source n)) \<and>
         planned_dest e =
           str_path (join_str (join_str
             (spec_target_root cfg source (path_suffix (make_child_relpath source n)))
             (spec_category cfg (path_suffix (make_child_relpath source n)))) n))) \<and>
   (snd (build_preview_v2 st sources cfg) = Inr plan \<longrightarrow>
      (\<forall>e\<in>set plan. \<exists>folder\<in>set sources. \<exists>n.
         pe_src e = str_path (make_child_relpath folder n) \<and>
         category e = spec_category cfg (path_suffix (make_child_relpath folder n)) \<and>
         (spec_destination cfg (path_suffix (make_child_relpath folder n)) \<noteq> [] \<and>
          is_absolute (Path (spec_destination cfg (path_suffix (make_child_relpath folder n))))
          \<longrightarrow> planned_dest e =
            str_path (join_str
              (Path (spec_destination cfg (path_suffix (make_child_relpath folder n)))) n)))) \<and>
   (is_dir st folder \<and> children (fs st) (key st folder) = [''report.pdf''] \<and>
    is_file st (make_child_relpath folder ''report.pdf'') \<longrightarrow>
      snd (build_preview_v1 st [folder] pdf_rules) =
        Inr [\<lparr>pe_src = str_path (make_child_relpath folder ''report.pdf''),
              category = ''Documents'',
              planned_dest = str_path (make_child_relpath
                (make_child_relpath folder ''Documents'') ''report.pdf'')\<rparr>])"
proof (intro conjI impI ballI)
  fix e
  assume "snd (build_preview_v1 st sources cfg) = Inr plan" "e \<in> set plan"
  from build_preview_v1_entry[OF this]
  show "\<exists>source\<in>set sources. \<exists>n.
         pe_src e = str_path (make_child_relpath source n) \<and>
         category e = spec_category cfg (path_suffix (make_child_relpath source n)) \<and>
         planned_dest e =
           str_path (join_str (join_str
             (spec_target_root cfg source (path_suffix (make_child_relpath source n)))
             (spec_category cfg (path_suffix (make_child_relpath source n)))) n)"
    by blast
next
  fix e
  assume "snd (build_preview_v2 st sources cfg) = Inr plan" "e \<in> set plan"
  from build_preview_v2_entry[OF this]
  show "\<exists>folder\<in>set sources. \<exists>n.
         pe_src e = str_path (make_child_relpath folder n) \<and>
         category e = spec_category cfg (path_suffix (make_child_relpath folder n)) \<and>
         (spec_destination cfg (path_suffix (make_child_relpath folder n)) \<noteq> [] \<and>
          is_absolute (Path (spec_destination cfg (path_suffix (make_child_relpath folder n))))
          \<longrightarrow> planned_dest e =
            str_path (join_str
              (Path (spec_destination cfg (path_suffix (make_child_relpath folder n)))) n))"
    by blast
next
  assume a: "is_dir st folder \<and> children (fs st) (key st folder) = [''report.pdf''] \<and>
    is_file st (make_child_relpath folder ''report.pdf'')"
  define item where "item = make_child_relpath folder ''report.pdf''"
  from a have it: "iterdir st folder = Inr [item]"
    by (simp add: iterdir_def is_dir_def item_def)
  from a have ex: "exists_p st folder" by (simp add: exists_p_def is_dir_def)
  have cat: "categorize_file_v1 item pdf_rules = (''Documents'', PurePath [] [])"
    by (simp add: categorize_file_v1_spec path_suffix_child scenario_a_reads Path_def
        splitroot_def item_def)
  have nm: "path_name item = ''report.pdf''" by (simp add: item_def)
  have j: "join_str p ''Documents'' = make_child_relpath p ''Documents''"
    "join_str p ''report.pdf'' = make_child_relpath p ''report.pdf''" for p
    by (simp_all add: join_str_def path_join_def scenario_a_reads make_child_relpath_def)
  from a have "preview_items_v1 st pdf_rules folder [item] =
      [\<lparr>pe_src = str_path item, category = ''Documents'',
        planned_dest = str_path (make_child_relpath
          (make_child_relpath folder ''Documents'') ''report.pdf'')\<rparr>]"
    by (simp add: cat nm j is_absolute_def item_def[symmetric])
  then show "snd (build_preview_v1 st [folder] pdf_rules) =
        Inr [\<lparr>pe_src = str_path (make_child_relpath folder ''report.pdf''),
              category = ''Documents'',
              planned_dest = str_path (make_child_relpath
                (make_child_relpath folder ''Documents'') ''report.pdf'')\<rparr>]"
    by (simp add: build_preview_v1_def it ex item_def)
qed

theorem planned_destination_by_variant_witness:
  "(\<exists>source\<in>set [Path ''/f'']. \<exists>n.
      pe_src notes_entry_v1 = str_path (make_child_relpath source n) \<and>
      category notes_entry_v1 = spec_category txt_rules (path_suffix (make_child_relpath source n)) \<and>
      planned_dest notes_entry_v1 =
        str_path (join_str (join_str
          (spec_target_root txt_rules source (path_suffix (make_child_relpath source n)))
          (spec_category txt_rules (path_suffix (make_child_relpath source n)))) n)) \<and>
   (\<exists>folder\<in>set [Path ''/f'']. \<exists>n.
      pe_src notes_entry_v2 = str_path (make_child_relpath folder n) \<and>
      category notes_entry_v2 = spec_category txt_rules (path_suffix (make_child_relpath folder n)) \<and>
      (spec_destination txt_rules (path_suffix (make_child_relpath folder n)) \<noteq> [] \<and>
       is_absolute (Path (spec_destination txt_rules (path_suffix (make_child_relpath folder n))))
       \<longrightarrow> planned_dest notes_entry_v2 =
         str_path (join_str
           (Path (spec_destination txt_rules (path_suffix (make_child_relpath folder n)))) n))) \<and>
   spec_destination txt_rules (path_suffix (make_child_relpath (Path ''/f'') ''todo.Txt''))
     = ''/srv/notes'' \<and>
   is_absolute (Path ''/srv/notes'') \<and>
   snd (build_preview_v1 report_state [Path ''/f''] pdf_rules) = Inr [report_entry_v1]"
proof -
  have h1: "snd (build_preview_v1 notes_state [Path ''/f''] txt_rules) = Inr [notes_entry_v1]"
    by code_simp
  have h2: "snd (build_preview_v2 notes_state [Path ''/f''] txt_rules) = Inr [notes_entry_v2]"
    by code_simp
  have h3: "is_dir report_state (Path ''/f'') \<and>
      children (fs report_state) (key report_state (Path ''/f'')) = [''report.pdf''] \<and>
      is_file report_state (make_child_relpath (Path ''/f'') ''report.pdf'')"
    by code_simp
  have e: "\<lparr>pe_src = str_path (make_child_relpath (Path ''/f'') ''report.pdf''),
      category = ''Documents'',
      planned_dest = str_path (make_child_relpath
        (make_child_relpath (Path ''/f'') ''Documents'') ''report.pdf'')\<rparr> = report_entry_v1"
    by code_simp
  have d: "spec_destination txt_rules (path_suffix (make_child_relpath (Path ''/f'') ''todo.Txt''))
     = ''/srv/notes''" "is_absolute (Path ''/srv/notes'')"
    by code_simp+
  note t = planned_destination_by_variant
  from t[where st = notes_state and sources = "[Path ''/f'']" and cfg = txt_rules
        and plan = "[notes_entry_v1]", THEN conjunct1, rule_format, OF h1, of notes_entry_v1]
  have c1: "\<exists>source\<in>set [Path ''/f'']. \<exists>n.
      pe_src notes_entry_v1 = str_path (make_child_relpath source n) \<and>
      category notes_entry_v1 = spec_category txt_rules (path_suffix (make_child_relpath source n)) \<and>
      planned_dest notes_entry_v1 =
        str_path (join_str (join_str
          (spec_target_root txt_rules source (path_suffix (make_child_relpath source n)))
          (spec_category txt_rules (path_suffix (make_child_relpath source n)))) n)"
    by simp
  from t[where st = notes_state and sources = "[Path ''/f'']" and cfg = txt_rules
        and plan = "[notes_entry_v2]", THEN conjunct2, THEN conjunct1, rule_format, OF h2,
        of notes_entry_v2]
  have c2: "\<exists>folder\<in>set [Path ''/f'']. \<exists>n.
      pe_src notes_entry_v2 = str_path (make_child_relpath folder n) \<and>
      category notes_entry_v2 = spec_category txt_rules (path_suffix (make_child_relpath folder n)) \<and>
      (spec_destination txt_rules (path_suffix (make_child_relpath folder n)) \<noteq> [] \<and>
       is_absolute (Path (spec_destination txt_rules (path_suffix (make_child_relpath folder n))))
       \<longrightarrow> planned_dest notes_entry_v2 =
         str_path (join_str
           (Path (spec_destination txt_rules (path_suffix (make_child_relpath folder n)))) n))"
    by simp
  from t[where st = report_state and folder = "Path ''/f''", THEN conjunct2, THEN conjunct2,
        rule_format, OF h3]
  have c3: "snd (build_preview_v1 report_state [Path ''/f''] pdf_rules) = Inr [report_entry_v1]"
    unfolding e .
  from c1 c2 c3 d show ?thesis by blast
qed

text \<open>
  Claim C1 as stated fails in variant v2: for the folder \<open>/f\<close> holding
  \<open>report.pdf\<close> and the rule mapping \<open>.pdf\<close> to \<open>Documents\<close> with an empty
  destination, the planned destination is the relative path \<open>report.pdf\<close>, not
  \<open>/f/Documents/report.pdf\<close>.
\<close>

theorem build_preview_v2_scenario_a_counterexample:
  "snd (build_preview_v2 report_state [Path ''/f''] pdf_rules) = Inr [report_entry_v2] \<and>
   planned_dest report_entry_v2 = ''report.pdf'' \<and>
   str_path (join_str (join_str (Path ''/f'') ''Documents'') ''report.pdf'')
     = ''/f/Documents/report.pdf'' \<and>
   planned_dest report_entry_v2
     \<noteq> str_path (join_str (join_str (Path ''/f'') ''Documents'') ''report.pdf'')"
  by code_simp

text \<open>
  Claim C6 fails in variant v1, which tests \<^verbatim>\<open>source.exists()\<close> where variant v2
  tests \<^verbatim>\<open>folder.is_dir()\<close>: a source that is a regular file is not skipped, the
  directory listing raises, and the folder after it produces no entries. Variant v2
  skips the file and plans the folder.
\<close>

theorem build_preview_v1_file_source_raises:
  "snd (build_preview_v1 report_state [Path ''/f/report.pdf'', Path ''/f''] pdf_rules)
     = Inl (NotADirectoryError ''/f/report.pdf'') \<and>
   snd (build_preview_v2 report_state [Path ''/f/report.pdf'', Path ''/f''] pdf_rules)
     = Inr [report_entry_v2]"
  by code_simp

text \<open>
  Claim C9. The plan builder never modifies the filesystem: after any number of calls on
  the same folders and rule set the directory tree and the recorded last run are what
  they were, and the next call returns the plan the first call returned. (Variant v1
  appends a warning to the organizer's own log for a missing source; variant v2 leaves
  the whole state as it was.)
\<close>

theorem build_preview_read_only:
  "fs (((\<lambda>s. fst (build_preview_v1 s srcs cfg)) ^^ n) st) = fs st \<and>
   last_run (((\<lambda>s. fst (build_preview_v1 s srcs cfg)) ^^ n) st) = last_run st \<and>
   snd (build_preview_v1 (((\<lambda>s. fst (build_preview_v1 s srcs cfg)) ^^ n) st) srcs cfg)
     = snd (build_preview_v1 st srcs cfg) \<and>
   ((\<lambda>s. fst (build_preview_v2 s srcs cfg)) ^^ n) st = st \<and>
   snd (build_preview_v2 (((\<lambda>s. fst (build_preview_v2 s srcs cfg)) ^^ n) st) srcs cfg)
     = snd (build_preview_v2 st srcs cfg)"
proof -
  let ?st = "((\<lambda>s. fst (build_preview_v1 s srcs cfg)) ^^ n) st"
  have t: "fs ?st = fs st" "cwd ?st = cwd st" "last_run ?st = last_run st"
    using repeated_preview_v1_tree[where srcs=srcs and cfg=cfg and n=n and st=st] by simp_all
  have "snd (build_preview_v1 ?st srcs cfg) = snd (build_preview_v1 st srcs cfg)"
    by (rule build_preview_v1_same_tree[OF t(1,2)])
  with t show ?thesis by (simp add: repeated_preview_v2_state)
qed

section \<open>Properties of paths\<close>

lemma split_sep_no_sep: "CHR ''/'' \<notin> set x \<Longrightarrow> split_sep x = [x]"
  by (induction x) auto

lemma split_sep_append:
  "CHR ''/'' \<notin> set x \<Longrightarrow> split_sep (x @ CHR ''/'' # rest) = x # split_sep rest"
  by (induction x) auto

lemma split_sep_nonempty: "split_sep s \<noteq> []"
  by (induction s) (auto split: list.splits)

lemma split_sep_pieces: "c \<in> set (split_sep s) \<Longrightarrow> CHR ''/'' \<notin> set c"
proof (induction s arbitrary: c)
  case Nil
  then show ?case by simp
next
  case (Cons a s)
  then show ?case
    by (cases "split_sep s") (auto split: if_splits)
qed

lemma split_join_sep:
  "ps \<noteq> [] \<Longrightarrow> \<forall>c\<in>set ps. CHR ''/'' \<notin> set c \<Longrightarrow> split_sep (join_sep ps) = ps"
proof (induction ps rule: join_sep.induct)
  case 1
  then show ?case by simp
next
  case (2 x)
  then show ?case by (simp add: split_sep_no_sep)
next
  case (3 x y ys)
  then show ?case by (simp add: split_sep_append)
qed

lemma join_sep_head:
  "ps \<noteq> [] \<Longrightarrow> hd ps \<noteq> [] \<Longrightarrow> join_sep ps \<noteq> [] \<and> hd (join_sep ps) = hd (hd ps)"
  by (induction ps rule: join_sep.induct) auto

lemma wf_path_Path: "wf_path (Path s)"
proof -
  have "proot (Path s) \<in> set [[], ''/'', ''//'']"
  proof (cases s)
    case Nil
    then show ?thesis by (simp add: Path_def splitroot_def)
  next
    case (Cons a s1)
    show ?thesis
    proof (cases s1)
      case Nil
      with Cons show ?thesis by (simp add: Path_def splitroot_def)
    next
      case (Cons b s2)
      with \<open>s = a # s1\<close> show ?thesis
        by (cases s2) (auto simp: Path_def splitroot_def)
    qed
  qed
  moreover have "list_all (\<lambda>c. c \<noteq> [] \<and> c \<noteq> ''.'' \<and> CHR ''/'' \<notin> set c) (parts (Path s))"
    by (auto simp: Path_def list_all_iff split: prod.splits dest: split_sep_pieces)
  ultimately show ?thesis by (simp add: wf_path_def)
qed

lemma take1_join_sep:
  assumes "list_all (\<lambda>c. c \<noteq> [] \<and> c \<noteq> ''.'' \<and> CHR ''/'' \<notin> set c) ps"
  shows "take 1 (join_sep ps) \<noteq> ''/''"
proof (cases ps)
  case Nil
  then show ?thesis by simp
next
  case (Cons c cs)
  with assms have c: "c \<noteq> []" "CHR ''/'' \<notin> set c" by simp_all
  from join_sep_head[of ps] Cons c have j: "join_sep ps \<noteq> []" "hd (join_sep ps) = hd c"
    by simp_all
  from c have "hd c \<noteq> CHR ''/''" by (cases c) auto
  with j show ?thesis by (cases "join_sep ps") auto
qed

lemma parts_of_join_sep:
  assumes "list_all (\<lambda>c. c \<noteq> [] \<and> c \<noteq> ''.'' \<and> CHR ''/'' \<notin> set c) ps"
  shows "filter (\<lambda>x. x \<noteq> [] \<and> x \<noteq> ''.'') (split_sep (join_sep ps)) = ps"
proof (cases "ps = []")
  case True
  then show ?thesis by simp
next
  case False
  with assms have "split_sep (join_sep ps) = ps"
    by (intro split_join_sep) (auto simp: list_all_iff)
  with assms show ?thesis by (auto simp: list_all_iff filter_id_conv)
qed

text \<open>Printing and parsing a well-formed path gives the path back.\<close>

lemma Path_str_path:
  assumes "wf_path p"
  shows "Path (str_path p) = p"
proof -
  obtain r ps where p: "p = PurePath r ps" by (cases p)
  from assms p have ps: "list_all (\<lambda>c. c \<noteq> [] \<and> c \<noteq> ''.'' \<and> CHR ''/'' \<notin> set c) ps"
    and r: "r = [] \<or> r = ''/'' \<or> r = ''//''" by (auto simp: wf_path_def)
  note t = take1_join_sep[OF ps] and f = parts_of_join_sep[OF ps]
  from r show ?thesis
  proof (elim disjE)
    assume r0: "r = []"
    show ?thesis
    proof (cases "ps = []")
      case True
      with r0 p show ?thesis by (simp add: str_path_def Path_def splitroot_def)
    next
      case False
      with ps have "join_sep ps \<noteq> []" using join_sep_head[of ps]
        by (cases ps) (auto)
      with r0 p t f show ?thesis by (simp add: str_path_def Path_def splitroot_def)
    qed
  next
    assume "r = ''/''"
    with p t f show ?thesis by (simp add: str_path_def Path_def splitroot_def)
  next
    assume "r = ''//''"
    with p t f show ?thesis by (simp add: str_path_def Path_def splitroot_def)
  qed
qed

lemma Path_str_Path: "Path (str_path (Path s)) = Path s"
  by (rule Path_str_path[OF wf_path_Path])

lemma wf_path_parent: "wf_path p \<Longrightarrow> wf_path (path_parent p)"
  by (auto simp: wf_path_def path_parent_def list_all_iff dest: in_set_butlastD)

lemma wf_path_join: "wf_path p \<Longrightarrow> wf_path q \<Longrightarrow> wf_path (path_join p q)"
  by (auto simp: wf_path_def path_join_def list_all_iff)

lemma wf_path_join_str: "wf_path p \<Longrightarrow> wf_path (join_str p s)"
  by (simp add: join_str_def wf_path_join wf_path_Path)

section \<open>Properties of the move executor\<close>

subsection \<open>What a batch leaves alone\<close>

lemma same_session_refl [simp]: "same_session st st"
  by (simp add: same_session_def)

lemma same_session_trans: "same_session a b \<Longrightarrow> same_session b c \<Longrightarrow> same_session a c"
  by (simp add: same_session_def)

lemma same_session_logger [simp]: "same_session st (logger l m st')  = same_session st st'"
  by (simp add: same_session_def)

lemma mkdir_same_session: "mkdir st p = Inr st1 \<Longrightarrow> same_session st st1"
  by (auto simp: mkdir_def same_session_def Let_def split: if_splits)

lemma shutil_move_same_session: "shutil_move st a b = Inr st1 \<Longrightarrow> same_session st st1"
  by (auto simp: shutil_move_def same_session_def Let_def split: if_splits)

lemma move_entry_v1_cases:
  assumes "move_entry_v1 st entry = Some (st1, r)"
  obtains (raised) e where "mkdir st (path_parent (Path (planned_dest entry))) = Inl e"
      "st1 = st" "r = Inl e"
  | (moved) st0 safe st2 where
      "mkdir st (path_parent (Path (planned_dest entry))) = Inr st0"
      "unique_dest st0 (join_str (path_parent (Path (planned_dest entry)))
         (path_name (Path (pe_src entry)))) = Some safe"
      "shutil_move st0 (str_path (Path (pe_src entry))) (str_path safe) = Inr st2"
      "st1 = logger ''INFO''
         (''Moved: '' @ str_path (Path (pe_src entry)) @ '' -> '' @ str_path safe) st2"
      "r = Inr (Some \<lparr>mv_src = str_path (Path (pe_src entry)), mv_dest = str_path safe\<rparr>)"
  | (failed) st0 safe e where
      "mkdir st (path_parent (Path (planned_dest entry))) = Inr st0"
      "unique_dest st0 (join_str (path_parent (Path (planned_dest entry)))
         (path_name (Path (pe_src entry)))) = Some safe"
      "shutil_move st0 (str_path (Path (pe_src entry))) (str_path safe) = Inl e"
      "st1 = logger ''ERROR''
         (''Failed to move '' @ str_path (Path (pe_src entry)) @ '' -> '' @ str_path safe
          @ '': '' @ exn_str e) st0"
      "r = Inr None"
  using assms unfolding move_entry_v1_def Let_def
  by (auto split: sum.splits option.splits)

lemma move_entry_v2_cases:
  assumes "move_entry_v2 st entry = Some (st1, r)"
  obtains (raised) e where "mkdir st (path_parent (Path (planned_dest entry))) = Inl e"
      "st1 = st" "r = Inl e"
  | (moved) st0 safe where
      "mkdir st (path_parent (Path (planned_dest entry))) = Inr st0"
      "unique_dest st0 (Path (planned_dest entry)) = Some safe"
      "shutil_move st0 (str_path (Path (pe_src entry))) (str_path safe) = Inr st1"
      "r = Inr (Some \<lparr>mv_src = str_path (Path (pe_src entry)), mv_dest = str_path safe\<rparr>)"
  | (failed) st0 safe e where
      "mkdir st (path_parent (Path (planned_dest entry))) = Inr st0"
      "unique_dest st0 (Path (planned_dest entry)) = Some safe"
      "shutil_move st0 (str_path (Path (pe_src entry))) (str_path safe) = Inl e"
      "st1 = logger ''ERROR''
         (''Failed to move '' @ str_path (Path (pe_src entry)) @ '': '' @ exn_str e) st0"
      "r = Inr None"
  using assms unfolding move_entry_v2_def Let_def
  by (auto split: sum.splits option.splits)

lemma move_entry_v1_same_session:
  assumes "move_entry_v1 st entry = Some (st1, r)"
  shows "same_session st st1"
  using assms
proof (cases rule: move_entry_v1_cases)
  case (raised e)
  then show ?thesis by simp
next
  case (moved st0 safe st2)
  then show ?thesis
    using same_session_trans[OF mkdir_same_session shutil_move_same_session] by simp
next
  case (failed st0 safe e)
  then show ?thesis using mkdir_same_session by simp
qed

lemma move_entry_v2_same_session:
  assumes "move_entry_v2 st entry = Some (st1, r)"
  shows "same_session st st1"
  using assms
proof (cases rule: move_entry_v2_cases)
  case (raised e)
  then show ?thesis by simp
next
  case (moved st0 safe)
  then show ?thesis
    using same_session_trans[OF mkdir_same_session shutil_move_same_session] by simp
next
  case (failed st0 safe e)
  then show ?thesis using mkdir_same_session by simp
qed



subsection \<open>The loop and its trace\<close>









section \<open>Collision-safe destinations\<close>

subsection \<open>Decimal numerals are distinct\<close>

lemma digit_char_inj: "a < 10 \<Longrightarrow> b < 10 \<Longrightarrow> digit_char a = digit_char b \<Longrightarrow> a = b"
proof -
  have d: "distinct ''0123456789''" by simp
  assume "a < 10" "b < 10" "digit_char a = digit_char b"
  then show "a = b"
    unfolding digit_char_def using nth_eq_iff_index_eq[OF d, of a b] by simp
qed

lemma digit_char_digit: "a < 10 \<Longrightarrow> digit_char a \<in> set ''0123456789''"
  unfolding digit_char_def by (rule nth_mem) simp

lemma show_nat_nonempty: "show_nat n \<noteq> []"
  by (subst show_nat.simps) simp

lemma show_nat_digits: "set (show_nat n) \<subseteq> set ''0123456789''"
proof (induction n rule: show_nat.induct)
  case (1 n)
  show ?case
  proof (cases "n < 10")
    case True
    then show ?thesis using digit_char_digit[of n] by (subst show_nat.simps) simp
  next
    case False
    then have "n mod 10 < 10" by simp
    with False 1 digit_char_digit[of "n mod 10"] show ?thesis
      by (subst show_nat.simps) auto
  qed
qed

lemma show_nat_no_sep: "CHR ''/'' \<notin> set (show_nat n)"
  using show_nat_digits[of n] by auto

lemma show_nat_inj: "show_nat a = show_nat b \<Longrightarrow> a = b"
proof (induction a arbitrary: b rule: show_nat.induct)
  case (1 a)
  show ?case
  proof (cases "a < 10")
    case True
    show ?thesis
    proof (cases "b < 10")
      case b: True
      from "1.prems" True b have "digit_char a = digit_char b"
        by (simp add: show_nat.simps[of a] show_nat.simps[of b])
      with True b show ?thesis by (rule digit_char_inj)
    next
      case b: False
      from "1.prems" True b have "show_nat (b div 10) = []"
        by (simp add: show_nat.simps[of a] show_nat.simps[of b])
      with show_nat_nonempty show ?thesis by blast
    qed
  next
    case False
    show ?thesis
    proof (cases "b < 10")
      case b: True
      from "1.prems" False b have "show_nat (a div 10) = []"
        by (simp add: show_nat.simps[of a] show_nat.simps[of b])
      with show_nat_nonempty show ?thesis by blast
    next
      case b: False
      from "1.prems" False b have e: "show_nat (a div 10) = show_nat (b div 10)"
        "digit_char (a mod 10) = digit_char (b mod 10)"
        by (simp_all add: show_nat.simps[of a] show_nat.simps[of b])
      from "1.IH"[OF False e(1)] have "a div 10 = b div 10" .
      moreover from e(2) have "a mod 10 = b mod 10" by (intro digit_char_inj) simp_all
      ultimately show ?thesis by (metis div_mult_mod_eq)
    qed
  qed
qed

subsection \<open>Names, stems and suffixes\<close>

lemma stem_suffix_name: "path_stem p @ path_suffix p = path_name p"
  by (simp add: path_stem_def path_suffix_def Let_def split: option.splits)

lemma wf_path_name: "wf_path p \<Longrightarrow> CHR ''/'' \<notin> set (path_name p)"
  by (auto simp: wf_path_def path_name_def list_all_iff)

lemma wf_path_stem_suffix:
  assumes "wf_path p"
  shows "CHR ''/'' \<notin> set (path_stem p)" "CHR ''/'' \<notin> set (path_suffix p)"
  using wf_path_name[OF assms] stem_suffix_name[of p]
  by (metis Un_iff set_append)+

lemma Path_single: "CHR ''/'' \<notin> set s \<Longrightarrow> s \<noteq> [] \<Longrightarrow> s \<noteq> ''.'' \<Longrightarrow> Path s = PurePath [] [s]"
  by (cases s) (auto simp: Path_def splitroot_def split_sep_no_sep)

lemma candidate_name_shape:
  assumes "CHR ''/'' \<notin> set stem" "CHR ''/'' \<notin> set sfx"
  shows "Path (stem @ ''_'' @ show_nat k @ sfx) = PurePath [] [stem @ ''_'' @ show_nat k @ sfx]"
proof (rule Path_single)
  from assms show_nat_no_sep[of k] show "CHR ''/'' \<notin> set (stem @ ''_'' @ show_nat k @ sfx)"
    by simp
  show "stem @ ''_'' @ show_nat k @ sfx \<noteq> []" by simp
  show "stem @ ''_'' @ show_nat k @ sfx \<noteq> ''.''"
    by (cases stem) (auto simp: append_eq_Cons_conv)
qed

lemma candidate_child:
  assumes "CHR ''/'' \<notin> set stem" "CHR ''/'' \<notin> set sfx"
  shows "candidate parent stem sfx k =
    make_child_relpath parent (stem @ ''_'' @ show_nat k @ sfx)"
  unfolding candidate_def join_str_def candidate_name_shape[OF assms]
  by (simp add: path_join_def make_child_relpath_def)

lemma candidate_inj:
  assumes "CHR ''/'' \<notin> set stem" "CHR ''/'' \<notin> set sfx"
    and "key st (candidate parent stem sfx j) = key st (candidate parent stem sfx k)"
  shows "j = k"
proof -
  from assms(3) have "stem @ ''_'' @ show_nat j @ sfx = stem @ ''_'' @ show_nat k @ sfx"
    by (simp add: candidate_child[OF assms(1,2)] make_child_relpath_def key_def
        split: if_splits)
  then have "show_nat j = show_nat k" by simp
  then show ?thesis by (rule show_nat_inj)
qed

lemma candidate_key_nonempty:
  assumes "CHR ''/'' \<notin> set stem" "CHR ''/'' \<notin> set sfx"
  shows "key st (candidate parent stem sfx k) \<noteq> []"
  by (simp add: candidate_child[OF assms] make_child_relpath_def key_def)

subsection \<open>The search returns the lowest free number\<close>

lemma exists_p_key_in_tree:
  "exists_p st p \<Longrightarrow> key st p \<noteq> [] \<Longrightarrow> key st p \<in> fst ` set (fs st)"
  by (auto simp: exists_p_def lookup_def dest: map_of_SomeD intro: rev_image_eqI)

lemma some_candidate_free:
  assumes "CHR ''/'' \<notin> set stem" "CHR ''/'' \<notin> set sfx"
  shows "\<exists>k\<ge>c. \<not> exists_p st (candidate parent stem sfx k)"
proof (rule ccontr)
  assume "\<not> ?thesis"
  then have all: "\<forall>k\<ge>c. exists_p st (candidate parent stem sfx k)" by simp
  let ?f = "\<lambda>k. key st (candidate parent stem sfx k)"
  have "inj ?f" using candidate_inj[OF assms] by (auto simp: inj_on_def)
  moreover have "?f ` {c..} \<subseteq> fst ` set (fs st)"
    using all exists_p_key_in_tree candidate_key_nonempty[OF assms] by auto
  then have "finite (?f ` {c..})" by (rule finite_subset) simp
  ultimately have "finite {c..}" by (metis finite_imageD subset_UNIV inj_on_subset)
  then show False by (simp add: infinite_Ici)
qed

lemma unique_dest_loop_finds:
  assumes "\<not> exists_p st (candidate parent stem sfx k)"
    and "\<forall>j. c \<le> j \<and> j < k \<longrightarrow> exists_p st (candidate parent stem sfx j)"
    and "c \<le> k"
  shows "unique_dest_loop st parent stem sfx c = Some (candidate parent stem sfx k)"
  using assms
proof (induction "k - c" arbitrary: c)
  case 0
  then have "c = k" by simp
  with 0 show ?case by (subst unique_dest_loop.simps) simp
next
  case (Suc n)
  then have c: "c < k" by simp
  with Suc.prems have e: "exists_p st (candidate parent stem sfx c)" by simp
  have "unique_dest_loop st parent stem sfx (c + 1) = Some (candidate parent stem sfx k)"
    using Suc.hyps Suc.prems c by (intro Suc.hyps(1)) auto
  with e show ?case by (subst unique_dest_loop.simps) simp
qed

lemma unique_dest_loop_lowest:
  assumes "CHR ''/'' \<notin> set stem" "CHR ''/'' \<notin> set sfx"
  shows "\<exists>k\<ge>c. unique_dest_loop st parent stem sfx c = Some (candidate parent stem sfx k) \<and>
           \<not> exists_p st (candidate parent stem sfx k) \<and>
           (\<forall>j. c \<le> j \<and> j < k \<longrightarrow> exists_p st (candidate parent stem sfx j))"
proof -
  define P where "P k = (c \<le> k \<and> \<not> exists_p st (candidate parent stem sfx k))" for k
  from some_candidate_free[OF assms, of c st parent] have "\<exists>k. P k" by (auto simp: P_def)
  then obtain k where k: "P k" "\<forall>j<k. \<not> P j"
    using exists_least_iff[of P] by blast
  then have free: "\<not> exists_p st (candidate parent stem sfx k)" and ck: "c \<le> k"
    and below: "\<forall>j. c \<le> j \<and> j < k \<longrightarrow> exists_p st (candidate parent stem sfx j)"
    by (auto simp: P_def)
  from unique_dest_loop_finds[OF free below ck] free below ck show ?thesis by blast
qed

text \<open>Whatever the search returns does not exist.\<close>

lemma unique_dest_loop_free:
  assumes "unique_dest_loop st parent stem sfx c = Some p"
  shows "\<not> exists_p st p \<and> (\<exists>k\<ge>c. p = candidate parent stem sfx k)"
proof (rule unique_dest_loop.raw_induct[where
      P = "\<lambda>st parent stem sfx c p.
             \<not> exists_p st p \<and> (\<exists>k\<ge>c. p = candidate parent stem sfx k)",
      OF _ assms])
  fix loop st parent stem sfx counter q
  assume ih: "\<And>st parent stem sfx counter q. loop st parent stem sfx counter = Some q \<Longrightarrow>
      \<not> exists_p st q \<and> (\<exists>k\<ge>counter. q = candidate parent stem sfx k)"
    and step: "(if \<not> exists_p st (candidate parent stem sfx counter)
      then Some (candidate parent stem sfx counter)
      else loop st parent stem sfx (counter + 1)) = Some q"
  show "\<not> exists_p st q \<and> (\<exists>k\<ge>counter. q = candidate parent stem sfx k)"
  proof (cases "exists_p st (candidate parent stem sfx counter)")
    case False
    with step show ?thesis by auto
  next
    case True
    with step have "loop st parent stem sfx (counter + 1) = Some q" by simp
    from ih[OF this] show ?thesis by (auto intro: Suc_leD)
  qed
qed

lemma unique_dest_free: "unique_dest st dest = Some p \<Longrightarrow> \<not> exists_p st p"
  by (auto simp: unique_dest_def split: if_splits dest: unique_dest_loop_free)

section \<open>Properties of the directory tree\<close>

subsection \<open>Well-formed trees\<close>

lemma lookup_root [simp]: "lookup t [] = Some Dir"
  by (simp add: lookup_def)

lemma wf_fs_iff:
  "wf_fs t \<longleftrightarrow> (\<forall>k. k \<noteq> [] \<longrightarrow> lookup t k \<noteq> None \<longrightarrow> lookup t (butlast k) = Some Dir)"
proof
  assume w: "wf_fs t"
  show "\<forall>k. k \<noteq> [] \<longrightarrow> lookup t k \<noteq> None \<longrightarrow> lookup t (butlast k) = Some Dir"
  proof (intro allI impI)
    fix k assume k: "k \<noteq> []" "lookup t k \<noteq> None"
    then obtain v where "(k, v) \<in> set t" by (auto simp: lookup_def dest: map_of_SomeD)
    with w k(1) show "lookup t (butlast k) = Some Dir"
      by (auto simp: wf_fs_def list_all_iff)
  qed
next
  assume a: "\<forall>k. k \<noteq> [] \<longrightarrow> lookup t k \<noteq> None \<longrightarrow> lookup t (butlast k) = Some Dir"
  show "wf_fs t"
    unfolding wf_fs_def list_all_iff
  proof (intro ballI)
    fix e assume e: "e \<in> set t"
    show "fst e = [] \<or> lookup t (butlast (fst e)) = Some Dir"
    proof (cases "fst e = []")
      case True
      then show ?thesis by simp
    next
      case False
      from e have "fst e \<in> fst ` set t" by simp
      then have "map_of t (fst e) \<noteq> None" by (simp add: map_of_eq_None_iff)
      with False a show ?thesis by (simp add: lookup_def)
    qed
  qed
qed

lemma wf_fs_parent:
  "wf_fs t \<Longrightarrow> k \<noteq> [] \<Longrightarrow> lookup t k \<noteq> None \<Longrightarrow> lookup t (butlast k) = Some Dir"
  by (simp add: wf_fs_iff)

lemma wf_fs_ancestors:
  "wf_fs t \<Longrightarrow> lookup t k \<noteq> None \<Longrightarrow> prefix q k \<Longrightarrow> q \<noteq> k \<Longrightarrow> lookup t q = Some Dir"
proof (induction k rule: rev_induct)
  case Nil
  then show ?case by simp
next
  case (snoc x ks)
  from snoc.prems(3,4) have q: "prefix q ks" by (auto simp: prefix_snoc)
  from wf_fs_parent[OF snoc.prems(1) _ snoc.prems(2)] have ks: "lookup t ks = Some Dir" by simp
  show ?case
  proof (cases "q = ks")
    case True
    with ks show ?thesis by simp
  next
    case False
    with snoc.IH[OF snoc.prems(1) _ q] ks show ?thesis by simp
  qed
qed

lemma wf_fs_nothing_below:
  assumes "wf_fs t" "lookup t d = None" "prefix d p"
  shows "lookup t p = None"
proof (rule ccontr)
  assume p: "lookup t p \<noteq> None"
  with assms(2) have "d \<noteq> p" by auto
  from wf_fs_ancestors[OF assms(1) p assms(3) this] assms(2) show False by simp
qed


subsection \<open>Creating directories\<close>

lemma is_file_node_iff:
  "(case x of None \<Rightarrow> False | Some (File c) \<Rightarrow> True | Some Dir \<Rightarrow> False)
     \<longleftrightarrow> (\<exists>c. x = Some (File c))"
  by (simp split: option.splits node.splits)

lemma not_file_node: "(\<forall>c. x \<noteq> Some (File c)) \<longleftrightarrow> x = None \<or> x = Some Dir"
  by (cases x) (auto intro: node.exhaust)

lemma file_on_path_iff:
  "file_on_path t k \<longleftrightarrow> (\<exists>q c. prefix q k \<and> lookup t q = Some (File c))"
  unfolding file_on_path_def list_ex_iff is_file_node_iff by (auto simp: in_set_prefixes)

lemma map_of_new_dirs:
  "map_of (map (\<lambda>q. (q, Dir)) qs) p = (if p \<in> set qs then Some Dir else None)"
  by (induction qs) auto

lemma lookup_makedirs:
  "lookup (makedirs t k) p = (if lookup t p = None \<and> prefix p k then Some Dir else lookup t p)"
  by (auto simp: lookup_def makedirs_def map_of_append map_add_def map_of_new_dirs
      in_set_prefixes split: option.splits)

lemma makedirs_keeps: "lookup t p \<noteq> None \<Longrightarrow> lookup (makedirs t k) p = lookup t p"
  by (simp add: lookup_makedirs)

lemma wf_makedirs:
  assumes "wf_fs t" "\<not> file_on_path t k"
  shows "wf_fs (makedirs t k)"
  unfolding wf_fs_iff
proof (intro allI impI)
  fix q assume q: "q \<noteq> []" "lookup (makedirs t k) q \<noteq> None"
  show "lookup (makedirs t k) (butlast q) = Some Dir"
  proof (cases "lookup t q = None")
    case False
    with wf_fs_parent[OF assms(1) q(1)] show ?thesis by (simp add: lookup_makedirs)
  next
    case True
    with q(2) have pk: "prefix q k" by (simp add: lookup_makedirs split: if_splits)
    then have bk: "prefix (butlast q) k" using prefix_order.trans prefixeq_butlast by blast
    show ?thesis
    proof (cases "lookup t (butlast q)")
      case None
      with bk show ?thesis by (simp add: lookup_makedirs)
    next
      case (Some n)
      with assms(2) bk have "n = Dir" by (cases n) (auto simp: file_on_path_iff)
      with Some show ?thesis by (simp add: lookup_makedirs)
    qed
  qed
qed

lemma mkdir_effect:
  assumes "mkdir st p = Inr st1"
  shows "st1 = st\<lparr>fs := makedirs (fs st) (key st p)\<rparr>" "\<not> file_on_path (fs st) (key st p)"
    "lookup (fs st1) (key st p) = Some Dir"
proof -
  from assms show 1: "st1 = st\<lparr>fs := makedirs (fs st) (key st p)\<rparr>"
    and 2: "\<not> file_on_path (fs st) (key st p)"
    by (auto simp: mkdir_def Let_def is_file_node_iff split: if_splits)
  from 2 have "\<forall>c. lookup (fs st) (key st p) \<noteq> Some (File c)"
    by (auto simp: file_on_path_iff)
  then have "lookup (fs st) (key st p) = None \<or> lookup (fs st) (key st p) = Some Dir"
    by (simp add: not_file_node)
  with 1 show "lookup (fs st1) (key st p) = Some Dir" by (auto simp: lookup_makedirs)
qed

lemma mkdir_wf: "mkdir st p = Inr st1 \<Longrightarrow> wf_fs (fs st) \<Longrightarrow> wf_fs (fs st1)"
  using mkdir_effect(1,2)[of st p st1] by (simp add: wf_makedirs)

lemma mkdir_keeps:
  "mkdir st p = Inr st1 \<Longrightarrow> lookup (fs st) q \<noteq> None \<Longrightarrow> lookup (fs st1) q = lookup (fs st) q"
  using mkdir_effect(1)[of st p st1] by (simp add: makedirs_keeps)

subsection \<open>Renaming\<close>

lemma map_of_rename_tree:
  assumes "\<not> prefix s d" "\<not> prefix d s"
  shows "map_of (rename_tree t s d) p =
    (if prefix d p then map_of t (s @ drop (length d) p)
     else if prefix s p then None else map_of t p)"
proof (induction t)
  case Nil
  then show ?case by (simp add: rename_tree_def)
next
  case (Cons e t)
  obtain k v where e: "e = (k, v)" by (cases e)
  have comparable: "prefix d (s @ r) \<Longrightarrow> False" for r
    using assms by (metis prefix_append prefix_same_cases prefixI)
  have old: "map_of (e # t) q = (if q = k then Some v else map_of t q)" for q
    by (simp add: e)
  show ?case
  proof (cases "prefix d k")
    case True
    then have new: "rename_tree (e # t) s d = rename_tree t s d"
      by (simp add: rename_tree_def e)
    from True have "s @ drop (length d) p \<noteq> k" using comparable by blast
    moreover from True have "\<not> prefix d p \<Longrightarrow> p \<noteq> k" by blast
    ultimately show ?thesis unfolding new Cons.IH old by simp
  next
    case False
    then have "rename_tree (e # t) s d = (rekey s d k, v) # rename_tree t s d"
      by (simp add: rename_tree_def e)
    then have new: "map_of (rename_tree (e # t) s d) p =
        (if p = rekey s d k then Some v else map_of (rename_tree t s d) p)"
      by simp
    show ?thesis
    proof (cases "prefix d p")
      case pd: True
      then obtain r where r: "p = d @ r" by (auto simp: prefix_def)
      have "p = rekey s d k \<longleftrightarrow> s @ drop (length d) p = k"
        using False r by (auto simp: rekey_def prefix_def)
      then show ?thesis unfolding new Cons.IH old using pd by simp
    next
      case pd: False
      show ?thesis
      proof (cases "prefix s p")
        case True
        have "p \<noteq> rekey s d k"
          using pd True by (auto simp: rekey_def)
        then show ?thesis unfolding new Cons.IH old using pd True by simp
      next
        case ps: False
        have "p = rekey s d k \<longleftrightarrow> p = k"
          using pd ps by (auto simp: rekey_def)
        then show ?thesis unfolding new Cons.IH old using pd ps by simp
      qed
    qed
  qed
qed

lemma lookup_rename_tree:
  assumes "\<not> prefix s d" "\<not> prefix d s"
  shows "lookup (rename_tree t s d) p =
    (if prefix d p then lookup t (s @ drop (length d) p)
     else if prefix s p then None else lookup t p)"
proof -
  from assms have "s \<noteq> []" "d \<noteq> []" by auto
  then show ?thesis
    using map_of_rename_tree[OF assms, of t p] by (auto simp: lookup_def)
qed

lemma wf_rename_tree:
  assumes "wf_fs t" "\<not> prefix s d" "\<not> prefix d s" "lookup t (butlast d) = Some Dir"
  shows "wf_fs (rename_tree t s d)"
  unfolding wf_fs_iff
proof (intro allI impI)
  note L = lookup_rename_tree[OF assms(2,3)]
  from assms(2,3) have ne: "s \<noteq> []" "d \<noteq> []" by auto
  fix k assume k: "k \<noteq> []" "lookup (rename_tree t s d) k \<noteq> None"
  show "lookup (rename_tree t s d) (butlast k) = Some Dir"
  proof (cases "prefix d k")
    case True
    then obtain r where r: "k = d @ r" by (auto simp: prefix_def)
    with k(2) have ex: "lookup t (s @ r) \<noteq> None" by (simp add: L)
    show ?thesis
    proof (cases "r = []")
      case True
      have "\<not> prefix d (butlast d)" using ne(2)
        by (metis append_butlast_last_id prefix_order.antisym prefixeq_butlast
            self_append_conv snoc_eq_iff_butlast)
      moreover have "\<not> prefix s (butlast d)"
        using assms(2) prefix_order.trans prefixeq_butlast by blast
      ultimately show ?thesis using True r assms(4) by (simp add: L)
    next
      case False
      then have b: "butlast k = d @ butlast r" by (simp add: r butlast_append)
      from wf_fs_parent[OF assms(1) _ ex] False ne
      have "lookup t (s @ butlast r) = Some Dir" by (simp add: butlast_append)
      then show ?thesis unfolding b by (simp add: L)
    qed
  next
    case False
    with k(2) have ps: "\<not> prefix s k" and ex: "lookup t k \<noteq> None"
      by (auto simp: L split: if_splits)
    have "\<not> prefix d (butlast k)" using False prefix_order.trans prefixeq_butlast by blast
    moreover have "\<not> prefix s (butlast k)" using ps prefix_order.trans prefixeq_butlast by blast
    ultimately show ?thesis using wf_fs_parent[OF assms(1) k(1) ex] by (simp add: L)
  qed
qed

section \<open>One move into a free path\<close>

lemma unique_dest_wf:
  assumes "wf_path dest" "unique_dest st dest = Some p"
  shows "wf_path p"
proof (cases "exists_p st dest")
  case False
  with assms show ?thesis by (simp add: unique_dest_def)
next
  case True
  with assms(2) have "unique_dest_loop st (path_parent dest) (path_stem dest) (path_suffix dest) 1
      = Some p" by (simp add: unique_dest_def)
  from unique_dest_loop_free[OF this] obtain k where
    "p = candidate (path_parent dest) (path_stem dest) (path_suffix dest) k" by blast
  then show ?thesis
    by (simp add: candidate_def wf_path_join_str wf_path_parent[OF assms(1)])
qed

lemma not_exists_lookup: "\<not> exists_p st p \<longleftrightarrow> lookup (fs st) (key st p) = None"
  by (simp add: exists_p_def)

lemma shutil_move_free_unfold:
  assumes "lookup (fs st) (key st (Path dst)) = None"
  shows "shutil_move st src dst =
    (if key st (Path src) = [] then Inl (OSError ''[Errno 16] Device or resource busy'')
     else if lookup (fs st) (key st (Path src)) = None then Inl (FileNotFoundError src)
     else if lookup (fs st) (key st (Path src)) = Some Dir then
       (if prefix (key st (Path src)) (key st (Path dst))
          then Inl (ShutilError (''Cannot move a directory '' @ quoted src
                  @ '' into itself '' @ quoted dst @ ''.''))
        else if file_on_path (fs st) (butlast (key st (Path dst))) then Inl (NotADirectoryError dst)
        else Inr (st\<lparr>fs := rename_tree (makedirs (fs st) (butlast (key st (Path dst))))
                (key st (Path src)) (key st (Path dst))\<rparr>))
     else
       (if lookup (fs st) (butlast (key st (Path dst))) \<noteq> Some Dir then Inl (FileNotFoundError dst)
        else Inr (st\<lparr>fs := rename_tree (fs st) (key st (Path src)) (key st (Path dst))\<rparr>)))"
proof -
  define s where "s = key st (Path src)"
  define d where "d = key st (Path dst)"
  define t where "t = fs st"
  have fd: "lookup t d = None" using assms by (simp add: d_def t_def)
  then have nd: "lookup t d \<noteq> Some Dir" by simp
  have "lookup t s \<noteq> None \<Longrightarrow> s \<noteq> d" using fd by auto
  then show ?thesis
    unfolding shutil_move_def Let_def s_def[symmetric] d_def[symmetric] t_def[symmetric]
    using fd nd by (simp (no_asm_simp))
qed

lemma not_prefix_butlast: "d \<noteq> [] \<Longrightarrow> \<not> prefix d (butlast d)"
  by (metis append_butlast_last_id prefix_order.antisym prefixeq_butlast
      self_append_conv snoc_eq_iff_butlast)

lemma prefix_butlast: "prefix s d \<Longrightarrow> s \<noteq> d \<Longrightarrow> prefix s (butlast d)"
  by (metis append_butlast_last_id prefix_snoc prefix_bot.extremum_uniqueI)

lemma makedirs_parent_dir:
  assumes "\<not> file_on_path t k"
  shows "lookup (makedirs t k) k = Some Dir"
proof (cases "lookup t k")
  case None
  then show ?thesis by (simp add: lookup_makedirs)
next
  case (Some n)
  with assms have "n = Dir" by (cases n) (auto simp: file_on_path_iff)
  with Some show ?thesis by (simp add: lookup_makedirs)
qed

text \<open>
  A successful move to a path where nothing is: the tree is the old one, perhaps with
  directories added, with the source renamed to the destination.
\<close>

lemma shutil_move_to_free:
  assumes wf: "wf_fs (fs st)"
    and mv: "shutil_move st src dst = Inr st1"
    and free: "lookup (fs st) (key st (Path dst)) = None"
  shows "\<exists>t'. st1 = st\<lparr>fs := rename_tree t' (key st (Path src)) (key st (Path dst))\<rparr> \<and>
           wf_fs t' \<and>
           (\<forall>p. lookup (fs st) p \<noteq> None \<longrightarrow> lookup t' p = lookup (fs st) p) \<and>
           (\<forall>p. lookup t' p \<noteq> lookup (fs st) p \<longrightarrow>
              lookup (fs st) p = None \<and> lookup t' p = Some Dir
              \<and> prefix p (butlast (key st (Path dst)))) \<and>
           lookup t' (key st (Path dst)) = None \<and>
           lookup t' (butlast (key st (Path dst))) = Some Dir \<and>
           \<not> prefix (key st (Path src)) (key st (Path dst)) \<and>
           \<not> prefix (key st (Path dst)) (key st (Path src)) \<and>
           lookup (fs st) (key st (Path src)) \<noteq> None \<and>
           ((\<exists>c. lookup (fs st) (key st (Path src)) = Some (File c)) \<longrightarrow> t' = fs st)"
proof -
  define s where "s = key st (Path src)"
  define d where "d = key st (Path dst)"
  define t where "t = fs st"
  note u = shutil_move_free_unfold[OF free, of src, folded s_def d_def t_def]
  have w: "wf_fs t" using wf by (simp add: t_def)
  have fd: "lookup t d = None" using free by (simp add: d_def t_def)
  then have dne: "d \<noteq> []" by auto
  from mv have sex: "lookup t s \<noteq> None"
    unfolding u by (simp split: if_splits)
  have nds: "\<not> prefix d s"
  proof
    assume "prefix d s"
    from wf_fs_nothing_below[OF w fd this] sex show False by simp
  qed
  have goal: "\<exists>t'. st1 = st\<lparr>fs := rename_tree t' s d\<rparr> \<and> wf_fs t' \<and>
           (\<forall>p. lookup t p \<noteq> None \<longrightarrow> lookup t' p = lookup t p) \<and>
           (\<forall>p. lookup t' p \<noteq> lookup t p \<longrightarrow>
              lookup t p = None \<and> lookup t' p = Some Dir \<and> prefix p (butlast d)) \<and>
           lookup t' d = None \<and> lookup t' (butlast d) = Some Dir \<and>
           \<not> prefix s d \<and> \<not> prefix d s \<and> lookup t s \<noteq> None \<and>
           ((\<exists>c. lookup t s = Some (File c)) \<longrightarrow> t' = t)"
  proof (cases "lookup t s = Some Dir")
    case True
    from mv True sex have nsd: "\<not> prefix s d"
      unfolding u by (simp split: if_splits)
    from mv True sex nsd have nf: "\<not> file_on_path t (butlast d)"
      unfolding u by (simp split: if_splits)
    from mv True sex nsd nf
    have st1: "st1 = st\<lparr>fs := rename_tree (makedirs t (butlast d)) s d\<rparr>"
      unfolding u by (simp split: if_splits)
    let ?t = "makedirs t (butlast d)"
    have 1: "wf_fs ?t" by (rule wf_makedirs[OF w nf])
    have 2: "\<forall>p. lookup t p \<noteq> None \<longrightarrow> lookup ?t p = lookup t p"
      by (simp add: makedirs_keeps)
    have 3: "\<forall>p. lookup ?t p \<noteq> lookup t p \<longrightarrow>
        lookup t p = None \<and> lookup ?t p = Some Dir \<and> prefix p (butlast d)"
      by (simp add: lookup_makedirs)
    have 4: "lookup ?t d = None"
      using fd not_prefix_butlast[OF dne] by (simp add: lookup_makedirs)
    have 5: "lookup ?t (butlast d) = Some Dir" by (rule makedirs_parent_dir[OF nf])
    have 6: "(\<exists>c. lookup t s = Some (File c)) \<longrightarrow> ?t = t" using True by simp
    from st1 1 2 3 4 5 nsd nds sex 6 show ?thesis
      by (intro exI[of _ ?t] conjI) assumption+
  next
    case False
    from mv False sex have par: "lookup t (butlast d) = Some Dir"
      unfolding u by (simp split: if_splits)
    from mv False sex par have st1: "st1 = st\<lparr>fs := rename_tree t s d\<rparr>"
      unfolding u by (simp split: if_splits)
    from sex fd have sd: "s \<noteq> d" by auto
    have nsd: "\<not> prefix s d"
    proof
      assume "prefix s d"
      from prefix_butlast[OF this sd] have pb: "prefix s (butlast d)" .
      show False
      proof (cases "s = butlast d")
        case True
        with par False show False by simp
      next
        case ne: False
        from wf_fs_ancestors[OF w _ pb ne] par False show False by simp
      qed
    qed
    have 3: "\<forall>p. lookup t p \<noteq> lookup t p \<longrightarrow>
        lookup t p = None \<and> lookup t p = Some Dir \<and> prefix p (butlast d)" by simp
    have 6: "(\<exists>c. lookup t s = Some (File c)) \<longrightarrow> t = t" by simp
    have 2: "\<forall>p. lookup t p \<noteq> None \<longrightarrow> lookup t p = lookup t p" by simp
    from st1 w 2 3 fd par nsd nds sex 6 show ?thesis
      by (intro exI[of _ t] conjI) assumption+
  qed
  then show ?thesis unfolding s_def d_def t_def .
qed

text \<open>What such a move leaves in place, and where the moved node is found.\<close>

lemma shutil_move_to_free_effect:
  assumes wf: "wf_fs (fs st)"
    and mv: "shutil_move st src dst = Inr st1"
    and free: "lookup (fs st) (key st (Path dst)) = None"
  shows "wf_fs (fs st1)"
    and "\<And>p n. lookup (fs st) p = Some n \<Longrightarrow> \<not> prefix (key st (Path src)) p \<Longrightarrow>
           lookup (fs st1) p = Some n"
    and "lookup (fs st1) (key st (Path dst)) = lookup (fs st) (key st (Path src))"
    and "lookup (fs st1) (key st (Path src)) = None"
proof -
  let ?s = "key st (Path src)" and ?d = "key st (Path dst)"
  from shutil_move_to_free[OF assms] obtain t' where
    st1: "st1 = st\<lparr>fs := rename_tree t' ?s ?d\<rparr>" and w: "wf_fs t'"
    and keep: "\<forall>p. lookup (fs st) p \<noteq> None \<longrightarrow> lookup t' p = lookup (fs st) p"
    and fd: "lookup t' ?d = None" and par: "lookup t' (butlast ?d) = Some Dir"
    and nsd: "\<not> prefix ?s ?d" and nds: "\<not> prefix ?d ?s"
    and sex: "lookup (fs st) ?s \<noteq> None"
    by blast
  note L = lookup_rename_tree[OF nsd nds, of t']
  from st1 show "wf_fs (fs st1)" by (simp add: wf_rename_tree[OF w nsd nds par])
  show "lookup (fs st1) p = Some n"
    if p: "lookup (fs st) p = Some n" "\<not> prefix ?s p" for p n
  proof -
    from keep p(1) have tp: "lookup t' p = Some n" by simp
    then have "\<not> prefix ?d p" using wf_fs_nothing_below[OF w fd, of p] by auto
    with tp p(2) st1 show ?thesis by (simp add: L)
  qed
  from keep sex st1 show "lookup (fs st1) ?d = lookup (fs st) ?s" by (simp add: L)
  from nds st1 show "lookup (fs st1) ?s = None" by (simp add: L)
qed

section \<open>What a batch of moves leaves in place\<close>

lemma session_key: "same_session st st1 \<Longrightarrow> key st1 p = key st p"
  by (simp add: same_session_def key_def)

lemma move_into_unique_dest:
  assumes wf: "wf_fs (fs st0)"
    and dest: "wf_path dest"
    and safe: "(if check then unique_dest st0 dest else Some dest) = Some safe"
    and chk: "\<not> check \<Longrightarrow> \<not> exists_p st0 dest"
    and mv: "shutil_move st0 (str_path (Path src)) (str_path safe) = Inr st2"
  shows "wf_fs (fs st2)"
    and "\<And>p n. lookup (fs st0) p = Some n \<Longrightarrow> \<not> prefix (key st0 (Path src)) p \<Longrightarrow>
           lookup (fs st2) p = Some n"
    and "lookup (fs st2) (key st0 safe) = lookup (fs st0) (key st0 (Path src))"
    and "lookup (fs st2) (key st0 (Path src)) = None"
    and "lookup (fs st0) (key st0 safe) = None"
proof -
  have ws: "wf_path safe"
    using safe dest unique_dest_wf by (cases check) auto
  have fr: "\<not> exists_p st0 safe"
    using safe chk unique_dest_free by (cases check) auto
  have ps: "Path (str_path safe) = safe" by (rule Path_str_path[OF ws])
  have free: "lookup (fs st0) (key st0 (Path (str_path safe))) = None"
    using fr by (simp add: ps not_exists_lookup)
  note e = shutil_move_to_free_effect[OF wf mv free, unfolded ps Path_str_Path]
  show "wf_fs (fs st2)" by (rule e(1))
  show "\<And>p n. lookup (fs st0) p = Some n \<Longrightarrow> \<not> prefix (key st0 (Path src)) p \<Longrightarrow>
           lookup (fs st2) p = Some n" by (rule e(2))
  show "lookup (fs st2) (key st0 safe) = lookup (fs st0) (key st0 (Path src))" by (rule e(3))
  show "lookup (fs st2) (key st0 (Path src)) = None" by (rule e(4))
  from free show "lookup (fs st0) (key st0 safe) = None" by (simp add: ps)
qed

lemma move_entry_v1_keeps:
  assumes m: "move_entry_v1 st entry = Some (st1, r)" and wf: "wf_fs (fs st)"
  shows "wf_fs (fs st1)"
    and "\<And>p n. lookup (fs st) p = Some n \<Longrightarrow> \<not> prefix (key st (Path (pe_src entry))) p \<Longrightarrow>
           lookup (fs st1) p = Some n"
proof -
  have "wf_fs (fs st1) \<and> (\<forall>p n. lookup (fs st) p = Some n \<longrightarrow>
      \<not> prefix (key st (Path (pe_src entry))) p \<longrightarrow> lookup (fs st1) p = Some n)"
    using m
  proof (cases rule: move_entry_v1_cases)
    case (raised e)
    with wf show ?thesis by simp
  next
    case (failed st0 safe e)
    from mkdir_wf[OF failed(1) wf] mkdir_keeps[OF failed(1)] failed(4)
    show ?thesis by simp
  next
    case (moved st0 safe st2)
    note w0 = mkdir_wf[OF moved(1) wf]
    note k0 = session_key[OF mkdir_same_session[OF moved(1)]]
    have d: "wf_path (join_str (path_parent (Path (planned_dest entry)))
        (path_name (Path (pe_src entry))))"
      by (intro wf_path_join_str wf_path_parent wf_path_Path)
    have s: "(if True then unique_dest st0 (join_str (path_parent (Path (planned_dest entry)))
        (path_name (Path (pe_src entry)))) else Some (join_str (path_parent
        (Path (planned_dest entry))) (path_name (Path (pe_src entry))))) = Some safe"
      using moved(2) by simp
    note e = move_into_unique_dest[OF w0 d s _ moved(3), unfolded k0]
    have "lookup (fs st2) p = Some n"
      if "lookup (fs st) p = Some n" "\<not> prefix (key st (Path (pe_src entry))) p" for p n
    proof -
      from mkdir_keeps[OF moved(1), of p] that(1) have "lookup (fs st0) p = Some n" by simp
      from e(2)[OF _ this that(2)] show ?thesis by simp
    qed
    moreover have "wf_fs (fs st2)" using e(1) by simp
    ultimately show ?thesis using moved(4) by simp
  qed
  then show "wf_fs (fs st1)"
    and "\<And>p n. lookup (fs st) p = Some n \<Longrightarrow> \<not> prefix (key st (Path (pe_src entry))) p \<Longrightarrow>
           lookup (fs st1) p = Some n" by blast+
qed

lemma move_entry_v2_keeps:
  assumes m: "move_entry_v2 st entry = Some (st1, r)" and wf: "wf_fs (fs st)"
  shows "wf_fs (fs st1)"
    and "\<And>p n. lookup (fs st) p = Some n \<Longrightarrow> \<not> prefix (key st (Path (pe_src entry))) p \<Longrightarrow>
           lookup (fs st1) p = Some n"
proof -
  have "wf_fs (fs st1) \<and> (\<forall>p n. lookup (fs st) p = Some n \<longrightarrow>
      \<not> prefix (key st (Path (pe_src entry))) p \<longrightarrow> lookup (fs st1) p = Some n)"
    using m
  proof (cases rule: move_entry_v2_cases)
    case (raised e)
    with wf show ?thesis by simp
  next
    case (failed st0 safe e)
    from mkdir_wf[OF failed(1) wf] mkdir_keeps[OF failed(1)] failed(4)
    show ?thesis by simp
  next
    case (moved st0 safe)
    note w0 = mkdir_wf[OF moved(1) wf]
    note k0 = session_key[OF mkdir_same_session[OF moved(1)]]
    have s: "(if True then unique_dest st0 (Path (planned_dest entry))
        else Some (Path (planned_dest entry))) = Some safe"
      using moved(2) by simp
    note e = move_into_unique_dest[OF w0 wf_path_Path s _ moved(3), unfolded k0]
    have "lookup (fs st1) p = Some n"
      if "lookup (fs st) p = Some n" "\<not> prefix (key st (Path (pe_src entry))) p" for p n
    proof -
      from mkdir_keeps[OF moved(1), of p] that(1) have "lookup (fs st0) p = Some n" by simp
      from e(2)[OF _ this that(2)] show ?thesis by simp
    qed
    moreover have "wf_fs (fs st1)" using e(1) by simp
    ultimately show ?thesis by simp
  qed
  then show "wf_fs (fs st1)"
    and "\<And>p n. lookup (fs st) p = Some n \<Longrightarrow> \<not> prefix (key st (Path (pe_src entry))) p \<Longrightarrow>
           lookup (fs st1) p = Some n" by blast+
qed

lemma perform_loop_v1_keeps:
  "perform_loop_v1 st plan acc = Some (st1, r) \<Longrightarrow> wf_fs (fs st) \<Longrightarrow>
   wf_fs (fs st1) \<and> same_session st st1 \<and>
   (\<forall>p n. lookup (fs st) p = Some n \<longrightarrow>
      (\<forall>e\<in>set plan. \<not> prefix (key st (Path (pe_src e))) p) \<longrightarrow> lookup (fs st1) p = Some n)"
proof (induction plan arbitrary: st acc)
  case Nil
  then show ?case by simp
next
  case (Cons entry rest)
  from Cons.prems(1) obtain st0 r0 where m: "move_entry_v1 st entry = Some (st0, r0)"
    by (auto split: option.splits)
  note s0 = move_entry_v1_same_session[OF m]
  note k0 = session_key[OF s0]
  note w0 = move_entry_v1_keeps(1)[OF m Cons.prems(2)]
  note keep0 = move_entry_v1_keeps(2)[OF m Cons.prems(2)]
  show ?case
  proof (cases r0)
    case (Inl e)
    with Cons.prems(1) m have "st1 = st0" by simp
    with w0 s0 keep0 show ?thesis by simp
  next
    case (Inr out)
    with Cons.prems(1) m obtain acc' where "perform_loop_v1 st0 rest acc' = Some (st1, r)"
      by (cases out) auto
    from Cons.IH[OF this w0] have ih: "wf_fs (fs st1)" "same_session st0 st1"
      "\<forall>p n. lookup (fs st0) p = Some n \<longrightarrow>
         (\<forall>e\<in>set rest. \<not> prefix (key st (Path (pe_src e))) p) \<longrightarrow> lookup (fs st1) p = Some n"
      by (simp_all add: k0)
    from ih(1) same_session_trans[OF s0 ih(2)] ih(3) keep0 show ?thesis by simp
  qed
qed

lemma perform_loop_v2_keeps:
  "perform_loop_v2 st plan acc = Some (st1, r) \<Longrightarrow> wf_fs (fs st) \<Longrightarrow>
   wf_fs (fs st1) \<and> same_session st st1 \<and>
   (\<forall>p n. lookup (fs st) p = Some n \<longrightarrow>
      (\<forall>e\<in>set plan. \<not> prefix (key st (Path (pe_src e))) p) \<longrightarrow> lookup (fs st1) p = Some n)"
proof (induction plan arbitrary: st acc)
  case Nil
  then show ?case by simp
next
  case (Cons entry rest)
  from Cons.prems(1) obtain st0 r0 where m: "move_entry_v2 st entry = Some (st0, r0)"
    by (auto split: option.splits)
  note s0 = move_entry_v2_same_session[OF m]
  note k0 = session_key[OF s0]
  note w0 = move_entry_v2_keeps(1)[OF m Cons.prems(2)]
  note keep0 = move_entry_v2_keeps(2)[OF m Cons.prems(2)]
  show ?case
  proof (cases r0)
    case (Inl e)
    with Cons.prems(1) m have "st1 = st0" by simp
    with w0 s0 keep0 show ?thesis by simp
  next
    case (Inr out)
    with Cons.prems(1) m obtain acc' where "perform_loop_v2 st0 rest acc' = Some (st1, r)"
      by (cases out) auto
    from Cons.IH[OF this w0] have ih: "wf_fs (fs st1)" "same_session st0 st1"
      "\<forall>p n. lookup (fs st0) p = Some n \<longrightarrow>
         (\<forall>e\<in>set rest. \<not> prefix (key st (Path (pe_src e))) p) \<longrightarrow> lookup (fs st1) p = Some n"
      by (simp_all add: k0)
    from ih(1) same_session_trans[OF s0 ih(2)] ih(3) keep0 show ?thesis by simp
  qed
qed

lemma perform_moves_v1_tree:
  assumes "perform_moves_v1 st plan = Some (st', r)"
  shows "\<exists>st1 r1. perform_loop_v1 st plan [] = Some (st1, r1) \<and> fs st' = fs st1
    \<and> cwd st' = cwd st1 \<and> (\<forall>e. r1 = Inl e \<longrightarrow> r = Inl e \<and> st' = st1)
    \<and> (\<forall>performed. r1 = Inr performed \<longrightarrow> r = Inr performed)"
  using assms
  by (auto simp: perform_moves_v1_def split: option.splits sum.splits if_splits)

lemma perform_moves_v2_tree:
  assumes "perform_moves_v2 st plan = Some (st', r)"
  shows "\<exists>st1 r1. perform_loop_v2 st plan [] = Some (st1, r1) \<and> fs st' = fs st1
    \<and> cwd st' = cwd st1 \<and> (\<forall>e. r1 = Inl e \<longrightarrow> r = Inl e \<and> st' = st1)
    \<and> (\<forall>performed. r1 = Inr performed \<longrightarrow> r = Inr performed)"
  using assms
  by (auto simp: perform_moves_v2_def split: option.splits sum.splits if_splits)

lemma perform_moves_keeps:
  assumes "perform_moves_v1 st plan = Some (st', r) \<or> perform_moves_v2 st plan = Some (st', r)"
    and "wf_fs (fs st)" and "lookup (fs st) p = Some n"
    and "\<forall>e\<in>set plan. \<not> prefix (key st (Path (pe_src e))) p"
  shows "lookup (fs st') p = Some n" and "wf_fs (fs st')"
proof -
  from assms(1) have "lookup (fs st') p = Some n \<and> wf_fs (fs st')"
  proof
    assume "perform_moves_v1 st plan = Some (st', r)"
    from perform_moves_v1_tree[OF this] obtain st1 r1 where
      l: "perform_loop_v1 st plan [] = Some (st1, r1)" and f: "fs st' = fs st1" by blast
    from perform_loop_v1_keeps[OF l assms(2)] assms(3,4) f show ?thesis by simp
  next
    assume "perform_moves_v2 st plan = Some (st', r)"
    from perform_moves_v2_tree[OF this] obtain st1 r1 where
      l: "perform_loop_v2 st plan [] = Some (st1, r1)" and f: "fs st' = fs st1" by blast
    from perform_loop_v2_keeps[OF l assms(2)] assms(3,4) f show ?thesis by simp
  qed
  then show "lookup (fs st') p = Some n" and "wf_fs (fs st')" by simp_all
qed

lemma unique_dest_lowest:
  assumes "wf_path dest" "exists_p st dest"
  shows "\<exists>k\<ge>1.
    unique_dest st dest = Some (make_child_relpath (path_parent dest)
      (path_stem dest @ ''_'' @ show_nat k @ path_suffix dest)) \<and>
    \<not> exists_p st (make_child_relpath (path_parent dest)
      (path_stem dest @ ''_'' @ show_nat k @ path_suffix dest)) \<and>
    (\<forall>j. 1 \<le> j \<and> j < k \<longrightarrow> exists_p st (make_child_relpath (path_parent dest)
      (path_stem dest @ ''_'' @ show_nat j @ path_suffix dest)))"
proof -
  note ss = wf_path_stem_suffix[OF assms(1)]
  from unique_dest_loop_lowest[OF ss, of 1 st "path_parent dest"] assms(2)
  show ?thesis
    unfolding candidate_child[OF ss] by (simp add: unique_dest_def)
qed

section \<open>Every batch returns\<close>

lemma unique_dest_returns:
  assumes "wf_path dest"
  shows "\<exists>p. unique_dest st dest = Some p"
proof (cases "exists_p st dest")
  case True
  from unique_dest_lowest[OF assms True] show ?thesis by blast
next
  case False
  then show ?thesis by (simp add: unique_dest_def)
qed

lemma move_entry_v1_returns: "\<exists>y. move_entry_v1 st entry = Some y"
proof (cases "mkdir st (path_parent (Path (planned_dest entry)))")
  case (Inl e)
  then show ?thesis by (simp add: move_entry_v1_def)
next
  case (Inr st0)
  have "wf_path (join_str (path_parent (Path (planned_dest entry)))
      (path_name (Path (pe_src entry))))"
    by (intro wf_path_join_str wf_path_parent wf_path_Path)
  from unique_dest_returns[OF this, of st0] obtain safe where
    "unique_dest st0 (join_str (path_parent (Path (planned_dest entry)))
      (path_name (Path (pe_src entry)))) = Some safe" by blast
  with Inr show ?thesis
    by (simp add: move_entry_v1_def Let_def split: sum.splits)
qed

lemma move_entry_v2_returns: "\<exists>y. move_entry_v2 st entry = Some y"
proof (cases "mkdir st (path_parent (Path (planned_dest entry)))")
  case (Inl e)
  then show ?thesis by (simp add: move_entry_v2_def)
next
  case (Inr st0)
  from unique_dest_returns[OF wf_path_Path, of st0 "planned_dest entry"] obtain safe where
    "unique_dest st0 (Path (planned_dest entry)) = Some safe" by blast
  with Inr show ?thesis
    by (simp add: move_entry_v2_def Let_def split: sum.splits)
qed

lemma perform_loop_v1_returns: "\<exists>y. perform_loop_v1 st plan acc = Some y"
proof (induction plan arbitrary: st acc)
  case Nil
  then show ?case by simp
next
  case (Cons entry rest)
  from move_entry_v1_returns[of st entry] obtain st0 r0 where
    m: "move_entry_v1 st entry = Some (st0, r0)" by auto
  show ?case
  proof (cases r0)
    case (Inl e)
    with m show ?thesis by simp
  next
    case (Inr out)
    with m Cons.IH[of st0] show ?thesis by (cases out) simp_all
  qed
qed

lemma perform_loop_v2_returns: "\<exists>y. perform_loop_v2 st plan acc = Some y"
proof (induction plan arbitrary: st acc)
  case Nil
  then show ?case by simp
next
  case (Cons entry rest)
  from move_entry_v2_returns[of st entry] obtain st0 r0 where
    m: "move_entry_v2 st entry = Some (st0, r0)" by auto
  show ?case
  proof (cases r0)
    case (Inl e)
    with m show ?thesis by simp
  next
    case (Inr out)
    with m Cons.IH[of st0] show ?thesis by (cases out) simp_all
  qed
qed

lemma perform_moves_v1_returns: "\<exists>y. perform_moves_v1 st plan = Some y"
proof -
  from perform_loop_v1_returns[of st plan "[]"] obtain st1 r1 where
    "perform_loop_v1 st plan [] = Some (st1, r1)" by auto
  then show ?thesis
    by (cases r1) (simp_all add: perform_moves_v1_def Let_def)
qed

lemma perform_moves_v2_returns: "\<exists>y. perform_moves_v2 st plan = Some y"
proof -
  from perform_loop_v2_returns[of st plan "[]"] obtain st1 r1 where
    "perform_loop_v2 st plan [] = Some (st1, r1)" by auto
  then show ?thesis
    by (cases r1) (simp_all add: perform_moves_v2_def Let_def)
qed

section \<open>Moving a regular file, and moving it back\<close>









section \<open>Undoing a batch of file moves\<close>





lemma grown_refl: "grown t t"
  by simp






section \<open>The claims about the rule store, the run log and the order of the records\<close>

lemma load_config_v1_not_json:
  "config_file st = NotJson \<Longrightarrow> load_config_v1 st = (st, Inl JSONDecodeError)"
  by (simp add: load_config_v1_def)

lemma load_config_v2_not_json:
  "config_file st = NotJson \<Longrightarrow>
   load_config_v2 st =
     (logger ''ERROR'' (''Config corrupted, using defaults: '' @ exn_str JSONDecodeError) st,
      Inr DEFAULT_CONFIG_v2)"
  by (simp add: load_config_v2_def)

lemma load_config_v2_returns: "\<exists>cfg. snd (load_config_v2 st) = Inr cfg"
  by (simp add: load_config_v2_def split: cfg_file.splits sum.splits)

text \<open>
  Claim C2 fails in variant v1, which reads the configuration without the \<^verbatim>\<open>try\<close>
  that variant v2 has: for a configuration file whose text is not JSON the decoding
  error reaches the caller. Variant v2 logs the condition and returns its built-in
  default.
\<close>

theorem load_config_v1_raises_on_malformed:
  "snd (load_config_v1 corrupt_config_state) = Inl JSONDecodeError \<and>
   snd (load_config_v2 corrupt_config_state) = Inr DEFAULT_CONFIG_v2 \<and>
   log (fst (load_config_v2 corrupt_config_state)) =
     [''ERROR - Config corrupted, using defaults: Expecting value: line 1 column 1 (char 0)'']"
  by code_simp





text \<open>
  Claim C8 fails in variant v1, where the creation of the original parent directory
  stands outside the \<^verbatim>\<open>try\<close> (variant v2 has it inside): when the parent of a
  record's original path is now a regular file, the exception leaves
  \<^verbatim>\<open>undo_last_run\<close>, no result is returned and the remaining record is not
  attempted. Variant v2 reports the failed reversal, reverses the other record and
  keeps the run log.
\<close>

theorem undo_v1_raises_on_blocked_parent:
  "(case undo_last_run_v1 blocked_undo_state of
      Some (st', r) \<Rightarrow>
        r = Inl (FileExistsError ''/f/d'') \<and> is_file st' (Path ''/g/k.txt'')
        \<and> \<not> exists_p st' (Path ''/f/k.txt'')
    | None \<Rightarrow> False) \<and>
   (case undo_last_run_v2 blocked_undo_state of
      Some (st', r) \<Rightarrow>
        r = Inr (False, ''Some undo'' @ [CHR 0x27] @ ''s failed:'' @ [CHR 0x0A]
                  @ ''/g/a.txt -> /f/d/a.txt: [Errno 17] File exists: ''
                  @ [CHR 0x27] @ ''/f/d'' @ [CHR 0x27])
        \<and> is_file st' (Path ''/f/k.txt'') \<and> last_run st' = last_run blocked_undo_state
    | None \<Rightarrow> False)"
  by code_simp


section \<open>Collision safety\<close>

text \<open>
  Claim C5. \<^verbatim>\<open>_unique_dest\<close> always returns. It returns the destination itself when
  nothing exists there; otherwise it returns the sibling named stem, \<open>_k\<close>, extension,
  for the lowest \<open>k \<ge> 1\<close> for which that sibling does not exist (stem and extension
  being the two halves of the destination's name). A batch of moves, in either variant,
  always returns, and every file or directory that existed before it and lies neither at
  nor below a source of the plan is still there, unchanged, after it: nothing at a
  destination is overwritten or deleted.
\<close>

theorem unique_dest_lowest_free_suffix:
  "(wf_path dest \<longrightarrow>
      (\<exists>p. unique_dest st dest = Some p) \<and>
      (\<not> exists_p st dest \<longrightarrow> unique_dest st dest = Some dest) \<and>
      (exists_p st dest \<longrightarrow>
         (\<exists>k\<ge>1.
            unique_dest st dest = Some (make_child_relpath (path_parent dest)
              (path_stem dest @ ''_'' @ show_nat k @ path_suffix dest)) \<and>
            \<not> exists_p st (make_child_relpath (path_parent dest)
              (path_stem dest @ ''_'' @ show_nat k @ path_suffix dest)) \<and>
            (\<forall>j. 1 \<le> j \<and> j < k \<longrightarrow> exists_p st (make_child_relpath (path_parent dest)
              (path_stem dest @ ''_'' @ show_nat j @ path_suffix dest))))) \<and>
      path_stem dest @ path_suffix dest = path_name dest) \<and>
   (\<exists>y. perform_moves_v1 st plan = Some y) \<and>
   (\<exists>y. perform_moves_v2 st plan = Some y) \<and>
   (wf_fs (fs st) \<and>
    (perform_moves_v1 st plan = Some (st', r) \<or> perform_moves_v2 st plan = Some (st', r)) \<and>
    lookup (fs st) p = Some n \<and>
    (\<forall>e\<in>set plan. \<not> prefix (key st (Path (pe_src e))) p) \<longrightarrow>
      lookup (fs st') p = Some n)"
proof (intro conjI impI)
  assume w: "wf_path dest"
  show "\<exists>p. unique_dest st dest = Some p" by (rule unique_dest_returns[OF w])
  show "path_stem dest @ path_suffix dest = path_name dest" by (rule stem_suffix_name)
  show "\<exists>k\<ge>1.
      unique_dest st dest = Some (make_child_relpath (path_parent dest)
        (path_stem dest @ ''_'' @ show_nat k @ path_suffix dest)) \<and>
      \<not> exists_p st (make_child_relpath (path_parent dest)
        (path_stem dest @ ''_'' @ show_nat k @ path_suffix dest)) \<and>
      (\<forall>j. 1 \<le> j \<and> j < k \<longrightarrow> exists_p st (make_child_relpath (path_parent dest)
        (path_stem dest @ ''_'' @ show_nat j @ path_suffix dest)))"
    if "exists_p st dest" by (rule unique_dest_lowest[OF w that])
next
  assume "\<not> exists_p st dest"
  then show "unique_dest st dest = Some dest" by (simp add: unique_dest_def)
next
  show "\<exists>y. perform_moves_v1 st plan = Some y" by (rule perform_moves_v1_returns)
  show "\<exists>y. perform_moves_v2 st plan = Some y" by (rule perform_moves_v2_returns)
next
  assume a: "wf_fs (fs st) \<and>
    (perform_moves_v1 st plan = Some (st', r) \<or> perform_moves_v2 st plan = Some (st', r)) \<and>
    lookup (fs st) p = Some n \<and>
    (\<forall>e\<in>set plan. \<not> prefix (key st (Path (pe_src e))) p)"
  then have 1: "perform_moves_v1 st plan = Some (st', r) \<or> perform_moves_v2 st plan = Some (st', r)"
    and 2: "wf_fs (fs st)" and 3: "lookup (fs st) p = Some n"
    and 4: "\<forall>e\<in>set plan. \<not> prefix (key st (Path (pe_src e))) p" by simp_all
  show "lookup (fs st') p = Some n" by (rule perform_moves_keeps(1)[OF 1 2 3 4])
qed

theorem unique_dest_lowest_free_suffix_witness:
  "wf_path (Path ''/f/Images/photo.png'') \<and>
   exists_p collision_state (Path ''/f/Images/photo.png'') \<and>
   unique_dest collision_state (Path ''/f/Images/photo.png'') =
     Some (Path ''/f/Images/photo_2.png'') \<and>
   (\<exists>k\<ge>1. unique_dest collision_state (Path ''/f/Images/photo.png'') =
      Some (make_child_relpath (path_parent (Path ''/f/Images/photo.png''))
        (path_stem (Path ''/f/Images/photo.png'') @ ''_'' @ show_nat k @
         path_suffix (Path ''/f/Images/photo.png'')))) \<and>
   wf_fs (fs collision_state) \<and>
   \<not> prefix (key collision_state (Path ''/f/photo.png'')) [''f'', ''Images'', ''photo.png''] \<and>
   lookup (fs collision_state) [''f'', ''Images'', ''photo.png''] = Some (File ''old'') \<and>
   lookup (fs (fst (the (perform_moves_v1 collision_state collision_plan))))
     [''f'', ''Images'', ''photo.png''] = Some (File ''old'') \<and>
   lookup (fs (fst (the (perform_moves_v1 collision_state collision_plan))))
     [''f'', ''Images'', ''photo_2.png''] = Some (File ''new'')"
proof -
  have w: "wf_path (Path ''/f/Images/photo.png'')" by (rule wf_path_Path)
  have e: "exists_p collision_state (Path ''/f/Images/photo.png'')" by code_simp
  have u: "unique_dest collision_state (Path ''/f/Images/photo.png'') =
     Some (Path ''/f/Images/photo_2.png'')" by code_simp
  have t: "wf_fs (fs collision_state)" by code_simp
  have s: "\<forall>e\<in>set collision_plan.
      \<not> prefix (key collision_state (Path (pe_src e))) [''f'', ''Images'', ''photo.png'']"
    by code_simp
  have l: "lookup (fs collision_state) [''f'', ''Images'', ''photo.png''] = Some (File ''old'')"
    by code_simp
  have m: "perform_moves_v1 collision_state collision_plan =
      Some (fst (the (perform_moves_v1 collision_state collision_plan)),
            snd (the (perform_moves_v1 collision_state collision_plan)))"
    by code_simp
  have n: "lookup (fs (fst (the (perform_moves_v1 collision_state collision_plan))))
     [''f'', ''Images'', ''photo_2.png''] = Some (File ''new'')" by code_simp
  note inst = unique_dest_lowest_free_suffix[of "Path ''/f/Images/photo.png''" collision_state
      collision_plan "fst (the (perform_moves_v1 collision_state collision_plan))"
      "snd (the (perform_moves_v1 collision_state collision_plan))"
      "[''f'', ''Images'', ''photo.png'']" "File ''old''"]
  from inst[THEN conjunct1, rule_format, OF w, THEN conjunct2, THEN conjunct2, THEN conjunct1,
      rule_format, OF e]
  have a: "\<exists>k\<ge>1. unique_dest collision_state (Path ''/f/Images/photo.png'') =
      Some (make_child_relpath (path_parent (Path ''/f/Images/photo.png''))
        (path_stem (Path ''/f/Images/photo.png'') @ ''_'' @ show_nat k @
         path_suffix (Path ''/f/Images/photo.png'')))" by blast
  from inst[THEN conjunct2, THEN conjunct2, THEN conjunct2, rule_format] t m l s
  have b: "lookup (fs (fst (the (perform_moves_v1 collision_state collision_plan))))
     [''f'', ''Images'', ''photo.png''] = Some (File ''old'')" by blast
  have s': "\<not> prefix (key collision_state (Path ''/f/photo.png''))
      [''f'', ''Images'', ''photo.png'']" by code_simp
  from w e u a t s' l b n show ?thesis by (intro conjI)
qed

section \<open>The round trip of a batch and its undo\<close>



end
